theory Spec2Isabelle
  imports Complex_Main
begin

section \<open>Data model\<close>

text \<open>
  The layout code works on plain JavaScript objects whose fields are optional.  One
  datatype covers the raw nodes handed to \<open>LayoutCalculator\<close>, the placed nodes it
  returns (\<open>{...node, startAngle, angleRange, depth, innerRadius, outerRadius}\<close>) and
  the gap nodes made by \<open>GapManager.createGapNode\<close>.  A numeric field that is absent
  (\<open>undefined\<close>) or not a number is \<open>None\<close>: both make every comparison false and every
  arithmetic result \<open>NaN\<close>.  JavaScript numbers are modelled as real numbers, so the
  theorems below speak about the arithmetic the code writes down, not about rounding;
  the one place where rounding decides a property, the ring radii, has a second model
  with the rounding written out (\<open>childRing\<close>).
  A missing \<open>children\<close> array is the empty list: every read in the source is guarded by
  \<open>node.children && node.children.length > 0\<close> or \<open>!node.children || ...\<close>.  Payload
  that no layout function reads (name, colour, style) is left out.
\<close>

datatype node = Node
  (nid: "string option")
  (nvalue: "real option")
  (startAngle: "real option")
  (angleRange: "real option")
  (depth: "nat option")
  (innerRadius: "real option")
  (outerRadius: "real option")
  (isGap: bool)
  (children: "node list")

text \<open>The \<open>layout\<close> argument of \<open>createLayoutNode\<close>.\<close>

record layout =
  l_startAngle :: real
  l_angleRange :: real
  l_depth :: nat
  l_innerRadius :: real
  l_outerRadius :: real

text \<open>\<open>LayoutCalculator.options\<close>; \<open>gapAngle\<close> is in degrees.\<close>

record lc_options =
  opt_innerRadius :: real
  opt_outerRadius :: real
  opt_gapAngle :: real
  opt_maxDepth :: nat

definition defaultOptions :: lc_options where
  "defaultOptions =
     \<lparr>opt_innerRadius = 0.15, opt_outerRadius = 0.90, opt_gapAngle = 3, opt_maxDepth = 10\<rparr>"

section \<open>LayoutCalculator\<close>

subsection \<open>Weights\<close>

text \<open>
  \<open>calculateNodeWeight\<close>: \<open>let weight = node.value || 1\<close>, then
  \<open>weight += node.children.length * 0.1\<close> when there are children, and
  \<open>Math.max(weight, 0.1)\<close>.  The \<open>||\<close> takes 1 for an unset value and for 0.
\<close>

definition calculateNodeWeight :: "node \<Rightarrow> real" where
  "calculateNodeWeight node =
     (let weight = (case nvalue node of None \<Rightarrow> 1 | Some v \<Rightarrow> if v = 0 then 1 else v);
          weight = (if children node \<noteq> []
                    then weight + real (length (children node)) * 0.1 else weight)
      in max weight 0.1)"

text \<open>\<open>calculateTotalWeight\<close>: \<open>nodes.reduce((total, node) => total + weight(node), 0)\<close>.\<close>

definition calculateTotalWeight :: "node list \<Rightarrow> real" where
  "calculateTotalWeight nodes = foldl (\<lambda>total node. total + calculateNodeWeight node) 0 nodes"

subsection \<open>Recursive layout\<close>

text \<open>
  \<open>createLayoutNode\<close> copies the node, writes the five layout fields and lays out the
  children.  \<open>layoutSiblings\<close> is the \<open>forEach\<close> loop over one sibling group, with the
  running angle and the index as arguments.  The loop body of \<open>calculateLayout\<close>
  (roots) and the one of \<open>createLayoutNode\<close> (children) are the same statements up to
  variable names, so one function models both.  \<open>index < length - 1\<close> is written
  \<open>index + 1 < length\<close> on naturals.
\<close>

fun createLayoutNode :: "lc_options \<Rightarrow> node \<Rightarrow> layout \<Rightarrow> node"
  and layoutSiblings ::
    "lc_options \<Rightarrow> real \<Rightarrow> real \<Rightarrow> real \<Rightarrow> nat \<Rightarrow> real \<Rightarrow> real \<Rightarrow> nat \<Rightarrow>
       node list \<Rightarrow> real \<Rightarrow> nat \<Rightarrow> node list"
where
  "createLayoutNode opts (Node i v s a d ri ro g cs) lay =
     (if cs \<noteq> [] then
        (let childDepth = l_depth lay + 1;
             radiusStep = (l_outerRadius lay - l_innerRadius lay) / (real (opt_maxDepth opts) + 1);
             childInnerRadius = l_innerRadius lay + radiusStep * real childDepth;
             childOuterRadius = childInnerRadius + radiusStep;
             childTotalWeight = calculateTotalWeight cs;
             gapRadians = (opt_gapAngle opts * pi) / 180;
             totalGapAngle = gapRadians * real (length cs);
             availableAngle = l_angleRange lay - totalGapAngle
         in Node i v (Some (l_startAngle lay)) (Some (l_angleRange lay)) (Some (l_depth lay))
              (Some (l_innerRadius lay)) (Some (l_outerRadius lay)) g
              (layoutSiblings opts childTotalWeight availableAngle gapRadians childDepth
                 childInnerRadius childOuterRadius (length cs) cs (l_startAngle lay) 0))
      else Node i v (Some (l_startAngle lay)) (Some (l_angleRange lay)) (Some (l_depth lay))
             (Some (l_innerRadius lay)) (Some (l_outerRadius lay)) g cs)"
| "layoutSiblings opts totalWeight availableAngle gapRadians dep rin rout n [] currentAngle index = []"
| "layoutSiblings opts totalWeight availableAngle gapRadians dep rin rout n (node # rest)
     currentAngle index =
     (let nodeWeight = calculateNodeWeight node;
          angleRange = (nodeWeight / totalWeight) * availableAngle;
          layoutNode = createLayoutNode opts node
            \<lparr>l_startAngle = currentAngle, l_angleRange = angleRange, l_depth = dep,
             l_innerRadius = rin, l_outerRadius = rout\<rparr>;
          currentAngle = currentAngle + angleRange;
          currentAngle = (if index + 1 < n then currentAngle + gapRadians else currentAngle)
      in layoutNode # layoutSiblings opts totalWeight availableAngle gapRadians dep rin rout n rest
           currentAngle (index + 1))"

text \<open>
  \<open>calculateLayout\<close>: the empty forest gives \<open>[]\<close>; a forest already in the memo cache
  (keyed by \<open>JSON.stringify(nodes)\<close>, here the forest itself) gives the cached result;
  otherwise the roots share \<open>2\<pi>\<close> minus \<open>gapRadians * nodes.length\<close> at depth 0 in the
  configured ring, and the result is cached.  The cache is passed in and returned.
\<close>

definition calculateLayout ::
  "lc_options \<Rightarrow> (node list \<rightharpoonup> node list) \<Rightarrow> node list \<Rightarrow> node list \<times> (node list \<rightharpoonup> node list)"
where
  "calculateLayout opts cache nodes =
     (if nodes = [] then ([], cache)
      else case cache nodes of
        Some cached \<Rightarrow> (cached, cache)
      | None \<Rightarrow>
          (let totalWeight = calculateTotalWeight nodes;
               gapRadians = (opt_gapAngle opts * pi) / 180;
               totalGapAngle = gapRadians * real (length nodes);
               availableAngle = 2 * pi - totalGapAngle;
               result = layoutSiblings opts totalWeight availableAngle gapRadians 0
                          (opt_innerRadius opts) (opt_outerRadius opts) (length nodes) nodes 0 0
           in (result, cache(nodes \<mapsto> result))))"

text \<open>The layout computed on a fresh calculator (empty cache).\<close>

definition layoutOf :: "lc_options \<Rightarrow> node list \<Rightarrow> node list" where
  "layoutOf opts nodes = fst (calculateLayout opts Map.empty nodes)"

subsection \<open>Statistics used by the validator\<close>

text \<open>
  \<open>countNodes\<close> and \<open>calculateMaxDepth\<close> walk the forest with a counter kept in a
  closure variable; the counter is the last argument here.
\<close>

fun countNode :: "node \<Rightarrow> nat \<Rightarrow> nat" where
  "countNode (Node i v s a d ri ro g cs) count = fold countNode cs (count + 1)"

definition countNodes :: "node list \<Rightarrow> nat" where
  "countNodes nodes = fold countNode nodes 0"

fun calculateDepth :: "node \<Rightarrow> nat \<Rightarrow> nat \<Rightarrow> nat" where
  "calculateDepth (Node i v s a d ri ro g cs) dep maxDepth =
     fold (\<lambda>child. calculateDepth child (dep + 1)) cs (max maxDepth dep)"

definition calculateMaxDepth :: "node list \<Rightarrow> nat" where
  "calculateMaxDepth nodes = fold (\<lambda>node. calculateDepth node 0) nodes 0"

subsection \<open>Hit testing\<close>

text \<open>
  Comparisons and sums on fields that may be absent: a comparison with \<open>undefined\<close> or
  \<open>NaN\<close> is false, a sum with one is \<open>NaN\<close>.
\<close>

fun le_opt :: "real option \<Rightarrow> real option \<Rightarrow> bool" where
  "le_opt (Some a) (Some b) = (a \<le> b)"
| "le_opt _ _ = False"

fun add_opt :: "real option \<Rightarrow> real option \<Rightarrow> real option" where
  "add_opt (Some a) (Some b) = Some (a + b)"
| "add_opt _ _ = None"

text \<open>The two tests in the loop body of \<open>findNodeByPolar\<close>.\<close>

definition angleInRange :: "real \<Rightarrow> node \<Rightarrow> bool" where
  "angleInRange angle node =
     (let angleStart = startAngle node;
          angleEnd = add_opt (startAngle node) (angleRange node)
      in if le_opt angleStart angleEnd
         then le_opt angleStart (Some angle) \<and> le_opt (Some angle) angleEnd
         else le_opt angleStart (Some angle) \<or> le_opt (Some angle) angleEnd)"

definition radiusInRange :: "real \<Rightarrow> node \<Rightarrow> bool" where
  "radiusInRange radiusRatio node =
     (le_opt (innerRadius node) (Some radiusRatio) \<and> le_opt (Some radiusRatio) (outerRadius node))"

text \<open>
  \<open>findNodeByPolar\<close>: the first node of the list whose interval and ring contain the
  point decides; its children are searched first and the node itself is the fallback.
  \<open>null\<close> is \<open>None\<close>.
\<close>

fun findNodeByPolar :: "real \<Rightarrow> real \<Rightarrow> node list \<Rightarrow> node option" where
  "findNodeByPolar angle radiusRatio [] = None"
| "findNodeByPolar angle radiusRatio (Node i v s a d ri ro g cs # rest) =
     (if angleInRange angle (Node i v s a d ri ro g cs)
         \<and> radiusInRange radiusRatio (Node i v s a d ri ro g cs)
      then (if cs \<noteq> []
            then (case findNodeByPolar angle radiusRatio cs of
                    Some childResult \<Rightarrow> Some childResult
                  | None \<Rightarrow> Some (Node i v s a d ri ro g cs))
            else Some (Node i v s a d ri ro g cs))
      else findNodeByPolar angle radiusRatio rest)"

text \<open>
  \<open>Math.atan2\<close> is a built-in of the language, written out here on the reals after
  its definition in the language standard.
\<close>

definition atan2 :: "real \<Rightarrow> real \<Rightarrow> real" where
  "atan2 y x =
     (if 0 < x then arctan (y / x)
      else if x < 0 then (if 0 \<le> y then arctan (y / x) + pi else arctan (y / x) - pi)
      else if 0 < y then pi / 2
      else if y < 0 then - pi / 2
      else 0)"

text \<open>
  \<open>findNodeByCoordinates\<close>.  When \<open>radius\<close> is 0 and the point is the centre,
  \<open>distance / radius\<close> is \<open>0 / 0 = NaN\<close> in the source, every radius comparison is
  false and the search returns \<open>null\<close>; that case is written out.
\<close>

definition findNodeByCoordinates ::
  "real \<Rightarrow> real \<Rightarrow> node list \<Rightarrow> real \<Rightarrow> real \<Rightarrow> node option" where
  "findNodeByCoordinates x y nodes width height =
     (let centerX = width / 2;
          centerY = height / 2;
          radius = min width height / 2;
          dx = x - centerX;
          dy = y - centerY;
          distance = sqrt (dx * dx + dy * dy)
      in if distance > radius then None
         else (let angle = atan2 dy dx;
                   angle = (if angle < 0 then angle + 2 * pi else angle)
               in if radius = 0 then None
                  else findNodeByPolar angle (distance / radius) nodes))"

subsection \<open>Minimum angle pass\<close>

text \<open>
  \<open>optimizeLayout\<close>: the first half of the function sorts the nodes into small and
  large ones and stores a \<open>borrowedAngle\<close> on temporary records that are dropped; the
  returned array is \<open>nodes.map\<close> of a copy whose \<open>angleRange\<close> is raised to
  \<open>minAngle\<close> when it is below it (an absent \<open>angleRange\<close> compares false and stays).
  \<open>calculateLayout\<close> does not call it.
\<close>

definition optimizeLayout :: "node list \<Rightarrow> real \<Rightarrow> node list" where
  "optimizeLayout nodes minAngle =
     map (\<lambda>node. case node of Node i v s a d ri ro g cs \<Rightarrow>
            (case a of
               Some r \<Rightarrow> if r < minAngle then Node i v s (Some minAngle) d ri ro g cs else node
             | None \<Rightarrow> node)) nodes"

definition defaultMinAngle :: real where
  "defaultMinAngle = 0.05"

subsection \<open>Parent/child pairs of a forest\<close>

fun familyPairs :: "node \<Rightarrow> (node \<times> node) list" where
  "familyPairs (Node i v s a d ri ro g cs) =
     map (Pair (Node i v s a d ri ro g cs)) cs @ concat (map familyPairs cs)"

definition forestPairs :: "node list \<Rightarrow> (node \<times> node) list" where
  "forestPairs nodes = concat (map familyPairs nodes)"


text \<open>The ring \<open>createLayoutNode\<close> computes for a child from its parent's placed fields.\<close>

definition ringFromParent :: "lc_options \<Rightarrow> node \<Rightarrow> node \<Rightarrow> bool" where
  "ringFromParent opts p c =
     (case (innerRadius p, outerRadius p, depth p) of
        (Some pin, Some pout, Some pd) \<Rightarrow>
          depth c = Some (pd + 1)
          \<and> innerRadius c = Some (pin + (pout - pin) / (real (opt_maxDepth opts) + 1) * real (pd + 1))
          \<and> outerRadius c = Some (pin + (pout - pin) / (real (opt_maxDepth opts) + 1) * real (pd + 1)
                                    + (pout - pin) / (real (opt_maxDepth opts) + 1))
      | _ \<Rightarrow> False)"

text \<open>Every node carries its level in the forest as \<open>depth\<close>.\<close>

fun depthLabelled :: "nat \<Rightarrow> node \<Rightarrow> bool" where
  "depthLabelled k (Node i v s a d ri ro g cs) = (d = Some k \<and> list_all (depthLabelled (k + 1)) cs)"

text \<open>
  The sum \<open>validateLayout\<close> takes over a sibling list,
  \<open>nodes.reduce((sum, node) => sum + node.angleRange, 0)\<close> (\<open>NaN\<close> when a field is absent).
\<close>

definition sumAngleRange :: "node list \<Rightarrow> real option" where
  "sumAngleRange nodes = foldl (\<lambda>sum node. add_opt sum (angleRange node)) (Some 0) nodes"

text \<open>
  The \<open>layout\<close> object \<open>createLayoutNode\<close> hands to a child \<open>child\<close> of \<open>parent\<close>, when
  the parent itself was placed with \<open>lay\<close> and the running angle is \<open>currentAngle\<close>.
\<close>

definition childLayout :: "lc_options \<Rightarrow> node \<Rightarrow> layout \<Rightarrow> node \<Rightarrow> real \<Rightarrow> layout" where
  "childLayout opts parent lay child currentAngle =
     \<lparr>l_startAngle = currentAngle,
      l_angleRange = (calculateNodeWeight child / calculateTotalWeight (children parent))
         * (l_angleRange lay - (opt_gapAngle opts * pi) / 180 * real (length (children parent))),
      l_depth = l_depth lay + 1,
      l_innerRadius = l_innerRadius lay
         + (l_outerRadius lay - l_innerRadius lay) / (real (opt_maxDepth opts) + 1) * real (l_depth lay + 1),
      l_outerRadius = l_innerRadius lay
         + (l_outerRadius lay - l_innerRadius lay) / (real (opt_maxDepth opts) + 1) * real (l_depth lay + 1)
         + (l_outerRadius lay - l_innerRadius lay) / (real (opt_maxDepth opts) + 1)\<rparr>"

text \<open>The \<open>layout\<close> object \<open>calculateLayout\<close> hands to a root.\<close>

definition rootLayout :: "lc_options \<Rightarrow> node list \<Rightarrow> node \<Rightarrow> real \<Rightarrow> layout" where
  "rootLayout opts nodes node st =
    \<lparr>l_startAngle = st,
     l_angleRange = (calculateNodeWeight node / calculateTotalWeight nodes)
        * (2 * pi - (opt_gapAngle opts * pi) / 180 * real (length nodes)),
     l_depth = 0, l_innerRadius = opt_innerRadius opts, l_outerRadius = opt_outerRadius opts\<rparr>"

subsection \<open>Input nodes used in the examples\<close>

text \<open>A raw node as the tree collaborator hands it over: an id, a value, children.\<close>

definition rawNode :: "string \<Rightarrow> real \<Rightarrow> node list \<Rightarrow> node" where
  "rawNode name v cs = Node (Some name) (Some v) None None None None None False cs"

text \<open>The default configuration with \<open>maxDepth\<close> set to 1.\<close>

definition shallowOptions :: lc_options where
  "shallowOptions =
     \<lparr>opt_innerRadius = 0.15, opt_outerRadius = 0.90, opt_gapAngle = 3, opt_maxDepth = 1\<rparr>"

text \<open>A chain of three nodes, one more level than \<open>shallowOptions\<close> allows.\<close>

definition chain3 :: "node list" where
  "chain3 = [rawNode ''a'' 1 [rawNode ''b'' 1 [rawNode ''c'' 1 []]]]"

text \<open>A root with two children of weight 1 and 3 (the scenario of the specification).\<close>

definition oneThree :: "node list" where
  "oneThree = [rawNode ''root'' 1 [rawNode ''A'' 1 [], rawNode ''B'' 3 []]]"

text \<open>
  The band the specification describes (\<open>ringFor\<close>): \<open>[rootInner, rootOuter]\<close> is cut into
  \<open>maxDepth + 1\<close> equal bands, a node at depth \<open>d\<close> takes band \<open>d\<close>, and a depth
  beyond \<open>maxDepth\<close> takes the last one.  Written from the specification's words, to
  be compared with the ring the code computes.
\<close>

definition specRingFor :: "nat \<Rightarrow> real \<Rightarrow> real \<Rightarrow> nat \<Rightarrow> real \<times> real" where
  "specRingFor dep rootInner rootOuter maxDepth =
     (let band = (rootOuter - rootInner) / (real maxDepth + 1);
          k = min dep maxDepth
      in (rootInner + band * real k, rootInner + band * real k + band))"

section \<open>GapManager\<close>

text \<open>
  \<open>GapManager.options\<close>: \<open>gapAngle\<close> in degrees, \<open>enableGaps\<close>, \<open>minChildrenForGap\<close>.
  The colour and opacity of a gap node are payload and left out, and so is the
  registry \<open>gapNodes\<close>, which \<open>insertGaps\<close> only writes.
\<close>

record gm_options =
  gm_gapAngle :: real
  gm_enableGaps :: bool
  gm_minChildrenForGap :: nat

definition defaultGapOptions :: gm_options where
  "defaultGapOptions = \<lparr>gm_gapAngle = 3, gm_enableGaps = True, gm_minChildrenForGap = 2\<rparr>"

subsection \<open>The returned trees\<close>

text \<open>
  This part describes the trees that \<open>insertGaps\<close> and \<open>removeGaps\<close> return, as
  values.  Both functions work by assignment to the nodes they are given; what that
  does to the argument is the subject of the store model further down.
\<close>

text \<open>Decimal digits of an index, for the template string of a gap id.\<close>

fun decimal :: "nat \<Rightarrow> string" where
  "decimal n = (if n < 10 then [''0123456789'' ! n]
                else decimal (n div 10) @ [''0123456789'' ! (n mod 10)])"

text \<open>
  \<open>createGapNode\<close>: id \<open>gap_<parent id or 'root'>_<gapIndex>\<close>, value 0, the given
  angles, no children, \<open>isGap: true\<close>; no depth and no radii.
\<close>

definition createGapNode :: "real \<Rightarrow> real \<Rightarrow> node \<Rightarrow> nat \<Rightarrow> node" where
  "createGapNode gapStart gapRange parentNode gapIndex =
     (let gapId = ''gap_''
            @ (case nid parentNode of None \<Rightarrow> ''root'' | Some i \<Rightarrow> if i = [] then ''root'' else i)
            @ ''_'' @ decimal gapIndex
      in Node (Some gapId) (Some 0) (Some gapStart) (Some gapRange) None None None True [])"

text \<open>The assignments \<open>child.startAngle = ...; child.angleRange = ...\<close> and \<open>node.children = ...\<close>.\<close>

fun setAngles :: "real option \<Rightarrow> real option \<Rightarrow> node \<Rightarrow> node" where
  "setAngles s' a' (Node i v s a d ri ro g cs) = Node i v s' a' d ri ro g cs"

fun setChildren :: "node list \<Rightarrow> node \<Rightarrow> node" where
  "setChildren cs' (Node i v s a d ri ro g cs) = Node i v s a d ri ro g cs'"

text \<open>Number of nodes of a tree: the measure for the recursions below.\<close>

fun treeSize :: "node \<Rightarrow> nat" where
  "treeSize (Node i v s a d ri ro g cs) = Suc (sum_list (map treeSize cs))"

lemma children_setAngles: "children (setAngles s a node) = children node"
  by (cases node) simp

lemma treeSize_setAngles: "treeSize (setAngles s a node) = treeSize node"
  by (cases node) simp

lemma treeSize_unfold: "treeSize node = Suc (sum_list (map treeSize (children node)))"
  by (cases node) simp

lemma treeSize_children: "sum_list (map treeSize (children node)) < treeSize node"
  by (simp add: treeSize_unfold [of node])

lemma treeSize_pos: "0 < treeSize node"
  by (simp add: treeSize_unfold [of node])

lemma treeSize_member: "c \<in> set cs \<Longrightarrow> treeSize c \<le> sum_list (map treeSize cs)"
  by (induction cs) auto

text \<open>
  \<open>processNode\<close> (the closure inside \<open>insertGaps\<close>) and its \<open>forEach\<close> loop
  \<open>insertLoop\<close>.  A node with fewer than \<open>minChildrenForGap\<close> children is returned as
  it is, without a look at its descendants.  Otherwise every child gets the same
  share \<open>(parentAngleRange - gapRadians * childrenCount) / childrenCount\<close>, and a gap
  node follows every child but the last.
\<close>

function processNode :: "gm_options \<Rightarrow> real \<Rightarrow> node \<Rightarrow> real \<Rightarrow> real \<Rightarrow> node"
  and insertLoop ::
    "gm_options \<Rightarrow> real \<Rightarrow> node \<Rightarrow> real \<Rightarrow> nat \<Rightarrow> node list \<Rightarrow> real \<Rightarrow> nat \<Rightarrow> nat \<Rightarrow> node list"
where
  "processNode opts gapRadians node parentAngleRange parentStartAngle =
     (if length (children node) < gm_minChildrenForGap opts then node
      else (let childrenCount = length (children node);
                totalGapAngle = gapRadians * real childrenCount;
                childAngle = (parentAngleRange - totalGapAngle) / real childrenCount
            in setChildren
                 (insertLoop opts gapRadians node childAngle childrenCount (children node)
                    parentStartAngle 0 0)
                 node))"
| "insertLoop opts gapRadians parent childAngle childrenCount [] currentAngle index gapIndex = []"
| "insertLoop opts gapRadians parent childAngle childrenCount (child # rest) currentAngle index gapIndex =
     (let placed = setAngles (Some currentAngle) (Some childAngle) child;
          processed = processNode opts gapRadians placed childAngle currentAngle;
          currentAngle = currentAngle + childAngle
      in if index + 1 < childrenCount
         then processed # createGapNode currentAngle gapRadians parent gapIndex
                # insertLoop opts gapRadians parent childAngle childrenCount rest
                    (currentAngle + gapRadians) (index + 1) (gapIndex + 1)
         else processed
                # insertLoop opts gapRadians parent childAngle childrenCount rest
                    currentAngle (index + 1) gapIndex)"
  by pat_completeness auto
termination
  by (relation "measure (\<lambda>x. case x of
          Inl (opts, g, node, par, ps) \<Rightarrow> 2 * treeSize node
        | Inr (opts, g, parent, ca, cc, cs, cur, idx, gi) \<Rightarrow> 2 * sum_list (map treeSize cs) + 1)")
     (auto simp add: children_setAngles treeSize_unfold [of node for node :: node])

text \<open>
  \<open>insertGaps\<close>: the data unchanged when gaps are disabled or the gap angle is not
  positive; otherwise every root is processed with the default arguments
  \<open>parentAngleRange = 2\<pi>\<close> and \<open>parentStartAngle = 0\<close>.
\<close>

definition insertGaps :: "gm_options \<Rightarrow> node list \<Rightarrow> node list" where
  "insertGaps opts data =
     (if \<not> gm_enableGaps opts \<or> gm_gapAngle opts \<le> 0 then data
      else (let gapRadians = (gm_gapAngle opts * pi) / 180
            in map (\<lambda>node. processNode opts gapRadians node (2 * pi) 0) data))"

text \<open>Quotient and product with a count, on a field that may be absent.\<close>

definition div_opt :: "real option \<Rightarrow> nat \<Rightarrow> real option" where
  "div_opt a n = map_option (\<lambda>r. r / real n) a"

definition mul_opt :: "real option \<Rightarrow> nat \<Rightarrow> real option" where
  "mul_opt a n = map_option (\<lambda>r. r * real n) a"

text \<open>
  \<open>removeGapsFromNode\<close> (the closure inside \<open>removeGaps\<close>): the gap children are
  filtered out, and the remaining ones share the node's \<open>angleRange\<close> evenly
  (\<open>childAngle = node.angleRange / realChildren.length\<close>), child \<open>index\<close> starting at
  \<open>node.startAngle + childAngle * index\<close>, before the recursion into each child.
\<close>

function removeGapsFromNode :: "node \<Rightarrow> node" where
  "removeGapsFromNode node =
     (let realChildren = filter (\<lambda>child. \<not> isGap child) (children node)
      in if realChildren \<noteq> []
         then (let childAngle = div_opt (angleRange node) (length realChildren)
               in setChildren
                    (map (\<lambda>ic. removeGapsFromNode
                            (setAngles (add_opt (startAngle node) (mul_opt childAngle (fst ic)))
                               childAngle (snd ic)))
                       (enumerate 0 realChildren))
                    node)
         else setChildren realChildren node)"
  by pat_completeness auto
termination
proof (relation "measure treeSize")
  show "wf (measure treeSize)" by simp
next
  fix node :: node and realChildren childAngle and ic :: "nat \<times> node"
  assume rc: "realChildren = filter (\<lambda>child. \<not> isGap child) (children node)"
    and mem: "ic \<in> set (enumerate 0 realChildren)"
  from mem have "fst ic < length realChildren \<and> realChildren ! fst ic = snd ic"
    by (simp add: in_set_enumerate_eq)
  then have "snd ic \<in> set realChildren"
    by (metis nth_mem)
  with rc have "snd ic \<in> set (children node)" by simp
  from treeSize_member [OF this] treeSize_children [of node]
  show "(setAngles (add_opt (startAngle node) (mul_opt childAngle (fst ic))) childAngle (snd ic), node)
          \<in> measure treeSize"
    by (simp add: treeSize_setAngles)
qed

definition removeGaps :: "node list \<Rightarrow> node list" where
  "removeGaps data = map removeGapsFromNode data"

declare processNode.simps [simp del] removeGapsFromNode.simps [simp del]

text \<open>
  The even partition \<open>removeGaps\<close> produces: no gap node among the children, child
  \<open>index\<close> has \<open>angleRange = parent.angleRange / n\<close> and starts at
  \<open>parent.startAngle + (parent.angleRange / n) * index\<close>, at every level.
\<close>

fun evenlyPartitioned :: "node \<Rightarrow> bool" where
  "evenlyPartitioned (Node i v s a d ri ro g cs) =
     (list_all (\<lambda>ic. \<not> isGap (snd ic)
                   \<and> angleRange (snd ic) = div_opt a (length cs)
                   \<and> startAngle (snd ic) = add_opt s (mul_opt (div_opt a (length cs)) (fst ic)))
        (enumerate 0 cs)
      \<and> list_all evenlyPartitioned cs)"

text \<open>The default layout configuration with the gap angle set to 0 and to 10 degrees.\<close>

definition gaplessOptions :: lc_options where
  "gaplessOptions =
     \<lparr>opt_innerRadius = 0.15, opt_outerRadius = 0.90, opt_gapAngle = 0, opt_maxDepth = 10\<rparr>"

definition tenDegreeOptions :: lc_options where
  "tenDegreeOptions =
     \<lparr>opt_innerRadius = 0.15, opt_outerRadius = 0.90, opt_gapAngle = 10, opt_maxDepth = 10\<rparr>"

text \<open>A root with two children of equal weight, and one with a grandchild level.\<close>

definition twoEqual :: "node list" where
  "twoEqual = [rawNode ''root'' 1 [rawNode ''A'' 1 [], rawNode ''B'' 1 []]]"

definition twoLevels :: "node list" where
  "twoLevels = [rawNode ''root'' 1
                  [rawNode ''A'' 1 [rawNode ''A1'' 1 [], rawNode ''A2'' 1 []], rawNode ''B'' 1 []]]"

subsection \<open>The store: what gap insertion does to its argument\<close>

text \<open>
  \<open>processNode\<close> assigns to the objects it is given (\<open>child.startAngle = ...\<close>,
  \<open>child.angleRange = ...\<close>, \<open>node.children = newChildren\<close>) and returns them.  To
  speak about the argument after the call, node objects live in a store: a reference
  is a number, an object holds the fields \<open>GapManager\<close> reads or writes, and
  \<open>children\<close> is a list of references.  A new object (a gap node) gets the next unused
  reference.  The recursion follows references, so it takes fuel: \<open>None\<close> is a run that
  does not return (a cyclic structure, in the source a stack overflow) or that meets a
  reference with no object.
\<close>

record obj =
  o_id :: "string option"
  o_value :: "real option"
  o_startAngle :: "real option"
  o_angleRange :: "real option"
  o_isGap :: bool
  o_children :: "nat list"

record store =
  heap :: "nat \<Rightarrow> obj option"
  nextRef :: nat

definition writeObj :: "nat \<Rightarrow> obj \<Rightarrow> store \<Rightarrow> store" where
  "writeObj r ob st = st\<lparr>heap := (heap st)(r \<mapsto> ob)\<rparr>"

definition allocObj :: "obj \<Rightarrow> store \<Rightarrow> nat \<times> store" where
  "allocObj ob st = (nextRef st, st\<lparr>heap := (heap st)(nextRef st \<mapsto> ob), nextRef := nextRef st + 1\<rparr>)"

text \<open>\<open>createGapNode\<close> on the store: the parent is read for its id, the gap node is new.\<close>

definition createGapNodeS :: "real \<Rightarrow> real \<Rightarrow> nat \<Rightarrow> nat \<Rightarrow> store \<Rightarrow> (nat \<times> store) option" where
  "createGapNodeS gapStart gapRange parentNode gapIndex st =
     (case heap st parentNode of
        None \<Rightarrow> None
      | Some parentObj \<Rightarrow>
          (let gapId = ''gap_''
                 @ (case o_id parentObj of None \<Rightarrow> ''root'' | Some i \<Rightarrow> if i = [] then ''root'' else i)
                 @ ''_'' @ decimal gapIndex
           in Some (allocObj \<lparr>o_id = Some gapId, o_value = Some 0, o_startAngle = Some gapStart,
                              o_angleRange = Some gapRange, o_isGap = True, o_children = []\<rparr> st)))"

fun processNodeS ::
    "nat \<Rightarrow> gm_options \<Rightarrow> real \<Rightarrow> nat \<Rightarrow> real \<Rightarrow> real \<Rightarrow> store \<Rightarrow> (nat \<times> store) option"
  and insertLoopS ::
    "nat \<Rightarrow> gm_options \<Rightarrow> real \<Rightarrow> nat \<Rightarrow> real \<Rightarrow> nat \<Rightarrow> nat list \<Rightarrow> real \<Rightarrow> nat \<Rightarrow> nat \<Rightarrow> store
       \<Rightarrow> (nat list \<times> store) option"
where
  "processNodeS 0 opts gapRadians node parentAngleRange parentStartAngle st = None"
| "processNodeS (Suc fuel) opts gapRadians node parentAngleRange parentStartAngle st =
     (case heap st node of
        None \<Rightarrow> None
      | Some nodeObj \<Rightarrow>
          if length (o_children nodeObj) < gm_minChildrenForGap opts then Some (node, st)
          else (let childrenCount = length (o_children nodeObj);
                    totalGapAngle = gapRadians * real childrenCount;
                    childAngle = (parentAngleRange - totalGapAngle) / real childrenCount
                in case insertLoopS fuel opts gapRadians node childAngle childrenCount
                          (o_children nodeObj) parentStartAngle 0 0 st of
                     None \<Rightarrow> None
                   | Some (newChildren, st') \<Rightarrow>
                       (case heap st' node of
                          None \<Rightarrow> None
                        | Some current \<Rightarrow>
                            Some (node, writeObj node (current\<lparr>o_children := newChildren\<rparr>) st'))))"
| "insertLoopS fuel opts gapRadians parent childAngle childrenCount [] currentAngle index gapIndex st =
     Some ([], st)"
| "insertLoopS fuel opts gapRadians parent childAngle childrenCount (child # rest) currentAngle index
     gapIndex st =
     (case heap st child of
        None \<Rightarrow> None
      | Some childObj \<Rightarrow>
          (let st1 = writeObj child
                       (childObj\<lparr>o_startAngle := Some currentAngle, o_angleRange := Some childAngle\<rparr>) st;
               nextAngle = currentAngle + childAngle
           in case processNodeS fuel opts gapRadians child childAngle currentAngle st1 of
                None \<Rightarrow> None
              | Some (processed, st2) \<Rightarrow>
                  if index + 1 < childrenCount
                  then (case createGapNodeS nextAngle gapRadians parent gapIndex st2 of
                          None \<Rightarrow> None
                        | Some (gapNode, st3) \<Rightarrow>
                            (case insertLoopS fuel opts gapRadians parent childAngle childrenCount rest
                                    (nextAngle + gapRadians) (index + 1) (gapIndex + 1) st3 of
                               None \<Rightarrow> None
                             | Some (others, st4) \<Rightarrow> Some (processed # gapNode # others, st4)))
                  else (case insertLoopS fuel opts gapRadians parent childAngle childrenCount rest
                                nextAngle (index + 1) gapIndex st2 of
                          None \<Rightarrow> None
                        | Some (others, st4) \<Rightarrow> Some (processed # others, st4))))"

text \<open>\<open>data.map(node => processNode(node))\<close>, root after root, on the store.\<close>

fun processRootsS :: "nat \<Rightarrow> gm_options \<Rightarrow> real \<Rightarrow> nat list \<Rightarrow> store \<Rightarrow> (nat list \<times> store) option" where
  "processRootsS fuel opts gapRadians [] st = Some ([], st)"
| "processRootsS fuel opts gapRadians (node # rest) st =
     (case processNodeS fuel opts gapRadians node (2 * pi) 0 st of
        None \<Rightarrow> None
      | Some (processed, st1) \<Rightarrow>
          (case processRootsS fuel opts gapRadians rest st1 of
             None \<Rightarrow> None
           | Some (others, st2) \<Rightarrow> Some (processed # others, st2)))"

definition insertGapsS :: "nat \<Rightarrow> gm_options \<Rightarrow> nat list \<Rightarrow> store \<Rightarrow> (nat list \<times> store) option" where
  "insertGapsS fuel opts data st =
     (if \<not> gm_enableGaps opts \<or> gm_gapAngle opts \<le> 0 then Some (data, st)
      else (let gapRadians = (gm_gapAngle opts * pi) / 180
            in processRootsS fuel opts gapRadians data st))"

text \<open>The tree below a reference, read off the store (fuel as above).\<close>

fun readTree :: "nat \<Rightarrow> store \<Rightarrow> nat \<Rightarrow> node option"
  and readForest :: "nat \<Rightarrow> store \<Rightarrow> nat list \<Rightarrow> node list option"
where
  "readTree 0 st r = None"
| "readTree (Suc fuel) st r =
     (case heap st r of
        None \<Rightarrow> None
      | Some ob \<Rightarrow>
          (case readForest fuel st (o_children ob) of
             None \<Rightarrow> None
           | Some cs \<Rightarrow> Some (Node (o_id ob) (o_value ob) (o_startAngle ob) (o_angleRange ob)
                                None None None (o_isGap ob) cs)))"
| "readForest fuel st [] = Some []"
| "readForest fuel st (r # rs) =
     (case readTree fuel st r of
        None \<Rightarrow> None
      | Some t \<Rightarrow> (case readForest fuel st rs of None \<Rightarrow> None | Some ts \<Rightarrow> Some (t # ts)))"

text \<open>A store with a root (reference 0) and its two children (references 1 and 2), no angles yet.\<close>

definition exampleStore :: store where
  "exampleStore =
     \<lparr>heap = [0 \<mapsto> \<lparr>o_id = Some ''root'', o_value = Some 1, o_startAngle = None, o_angleRange = None,
                       o_isGap = False, o_children = [1, 2]\<rparr>,
              1 \<mapsto> \<lparr>o_id = Some ''A'', o_value = Some 1, o_startAngle = None, o_angleRange = None,
                       o_isGap = False, o_children = []\<rparr>,
              2 \<mapsto> \<lparr>o_id = Some ''B'', o_value = Some 1, o_startAngle = None, o_angleRange = None,
                       o_isGap = False, o_children = []\<rparr>],
      nextRef = 3\<rparr>"

definition disabledGapOptions :: gm_options where
  "disabledGapOptions = \<lparr>gm_gapAngle = 3, gm_enableGaps = False, gm_minChildrenForGap = 2\<rparr>"

text \<open>
  The same store after \<open>insertGaps\<close> with the default gap of 3 degrees, traced by hand:
  the children are \<open>59\<pi>/60\<close> wide, a new gap node (reference 3) sits between them,
  and the root's \<open>children\<close> array holds it.
\<close>

definition exampleStoreAfter :: store where
  "exampleStoreAfter =
     \<lparr>heap = [0 \<mapsto> \<lparr>o_id = Some ''root'', o_value = Some 1, o_startAngle = None, o_angleRange = None,
                       o_isGap = False, o_children = [1, 3, 2]\<rparr>,
              1 \<mapsto> \<lparr>o_id = Some ''A'', o_value = Some 1, o_startAngle = Some 0,
                       o_angleRange = Some (59 * pi / 60), o_isGap = False, o_children = []\<rparr>,
              2 \<mapsto> \<lparr>o_id = Some ''B'', o_value = Some 1, o_startAngle = Some pi,
                       o_angleRange = Some (59 * pi / 60), o_isGap = False, o_children = []\<rparr>,
              3 \<mapsto> \<lparr>o_id = Some ''gap_root_0'', o_value = Some 0, o_startAngle = Some (59 * pi / 60),
                       o_angleRange = Some (pi / 60), o_isGap = True, o_children = []\<rparr>],
      nextRef = 4\<rparr>"

text \<open>
  A store is ranked when every child has an object and a rank below its parent's (so
  no node is its own descendant; shared subtrees are allowed), and the references
  from \<open>n0\<close> on, where new objects go, have rank 0.  \<open>extendsStore\<close>: no object is lost
  and the next reference does not go down.
\<close>

definition rankedStore :: "(nat \<Rightarrow> nat) \<Rightarrow> nat \<Rightarrow> store \<Rightarrow> bool" where
  "rankedStore rank n0 st \<longleftrightarrow>
     (\<forall>r ob. heap st r = Some ob \<longrightarrow>
        (\<forall>c \<in> set (o_children ob). rank c < rank r \<and> heap st c \<noteq> None))
     \<and> (\<forall>x. n0 \<le> x \<longrightarrow> rank x = 0)
     \<and> n0 \<le> nextRef st"

definition extendsStore :: "store \<Rightarrow> store \<Rightarrow> bool" where
  "extendsStore st st' \<longleftrightarrow>
     nextRef st \<le> nextRef st' \<and> (\<forall>x. heap st x \<noteq> None \<longrightarrow> heap st' x \<noteq> None)"

text \<open>A rank for \<open>exampleStore\<close>: the root above everything else.\<close>

definition exampleRank :: "nat \<Rightarrow> nat" where
  "exampleRank r = (if r = 0 then 1 else 0)"

text \<open>
  The references met while reading the tree below a reference, in the order of the
  reading.  A store holds a proper tree below \<open>r\<close> when these are pairwise different
  (no node is shared) and all below the next unused reference.
\<close>

fun refsOf :: "nat \<Rightarrow> store \<Rightarrow> nat \<Rightarrow> nat list"
  and refsOfForest :: "nat \<Rightarrow> store \<Rightarrow> nat list \<Rightarrow> nat list"
where
  "refsOf 0 st r = []"
| "refsOf (Suc fuel) st r =
     r # (case heap st r of None \<Rightarrow> [] | Some ob \<Rightarrow> refsOfForest fuel st (o_children ob))"
| "refsOfForest fuel st [] = []"
| "refsOfForest fuel st (r # rs) = refsOf fuel st r @ refsOfForest fuel st rs"

definition properTree :: "nat \<Rightarrow> store \<Rightarrow> nat \<Rightarrow> bool" where
  "properTree fuel st r \<longleftrightarrow>
     distinct (refsOf fuel st r) \<and> (\<forall>x \<in> set (refsOf fuel st r). x < nextRef st)"

definition properForest :: "nat \<Rightarrow> store \<Rightarrow> nat list \<Rightarrow> bool" where
  "properForest fuel st rs \<longleftrightarrow>
     distinct (refsOfForest fuel st rs) \<and> (\<forall>x \<in> set (refsOfForest fuel st rs). x < nextRef st)"

text \<open>
  What it means for the store functions to compute the trees of the value functions
  at a given fuel: on a proper tree the run returns its argument, the tree read back
  is the one \<open>processNode\<close> returns, objects outside the tree are untouched, and the
  tree stays proper, its new references being the ones handed out during the run.
\<close>

definition nodeRefines :: "nat \<Rightarrow> gm_options \<Rightarrow> real \<Rightarrow> bool" where
  "nodeRefines f opts g \<longleftrightarrow>
     (\<forall>st r t pa ps. readTree f st r = Some t \<and> properTree f st r \<longrightarrow>
        (\<exists>st'. processNodeS f opts g r pa ps st = Some (r, st')
           \<and> readTree f st' r = Some (processNode opts g t pa ps)
           \<and> properTree f st' r
           \<and> nextRef st \<le> nextRef st'
           \<and> (\<forall>x. x < nextRef st \<and> x \<notin> set (refsOf f st r) \<longrightarrow> heap st' x = heap st x)
           \<and> set (refsOf f st' r) \<subseteq> set (refsOf f st r) \<union> {nextRef st..<nextRef st'}))"


subsection \<open>More input nodes used in the examples\<close>

text \<open>
  A node with two children beside a sibling that is 1000 times heavier: under the
  default configuration it is narrower than one gap.
\<close>

definition skewedPair :: "node list" where
  "skewedPair = [rawNode ''root'' 1
                   [rawNode ''small'' 1 [rawNode ''x'' 1 [], rawNode ''y'' 1 []],
                    rawNode ''big'' 1000 []]]"

subsection \<open>The ring of a child in floating point\<close>

text \<open>
  The three statements of \<open>createLayoutNode\<close> that compute a child's ring,
  \<open>radiusStep = (outer - inner) / (maxDepth + 1)\<close>,
  \<open>childInnerRadius = inner + (radiusStep * childDepth)\<close> and
  \<open>childOuterRadius = childInnerRadius + radiusStep\<close>, with the rounding of every
  floating-point operation written out: \<open>rnd\<close> maps the exact result of an operation to
  the number that is stored.  \<open>maxDepth + 1\<close> is a sum of small integers and is exact.
  With \<open>rnd\<close> the identity this is the ring of \<open>createLayoutNode\<close> above.
\<close>

definition childRing :: "(real \<Rightarrow> real) \<Rightarrow> nat \<Rightarrow> real \<Rightarrow> real \<Rightarrow> nat \<Rightarrow> real \<times> real" where
  "childRing rnd maxDepth parentInner parentOuter childDepth =
     (let radiusStep = rnd (rnd (parentOuter - parentInner) / (real maxDepth + 1));
          childInnerRadius = rnd (parentInner + rnd (radiusStep * real childDepth));
          childOuterRadius = rnd (childInnerRadius + radiusStep)
      in (childInnerRadius, childOuterRadius))"



definition nearest3 :: "real \<Rightarrow> real" where
  "nearest3 x = real_of_int \<lfloor>x * 1000 + 1 / 2\<rfloor> / 1000"

section \<open>Properties of the weight model\<close>

lemma calculateNodeWeight_ge: "1 / 10 \<le> calculateNodeWeight node"
  by (simp add: calculateNodeWeight_def Let_def)

lemma calculateNodeWeight_pos: "0 < calculateNodeWeight node"
  using calculateNodeWeight_ge [of node] by linarith

lemma foldl_weight_shift:
  "foldl (\<lambda>total node. total + calculateNodeWeight node) acc nodes
     = acc + sum_list (map calculateNodeWeight nodes)"
  by (induction nodes arbitrary: acc) simp_all

lemma calculateTotalWeight_sum:
  "calculateTotalWeight nodes = sum_list (map calculateNodeWeight nodes)"
  by (simp add: calculateTotalWeight_def foldl_weight_shift)

lemma sum_weights_nonneg: "0 \<le> sum_list (map calculateNodeWeight nodes)"
proof (induction nodes)
  case Nil
  show ?case by simp
next
  case (Cons n ns)
  then show ?case using calculateNodeWeight_pos [of n] by simp
qed

lemma calculateTotalWeight_pos: "nodes \<noteq> [] \<Longrightarrow> 0 < calculateTotalWeight nodes"
proof (cases nodes)
  case Nil
  assume "nodes \<noteq> []"
  with Nil show ?thesis by simp
next
  case (Cons n ns)
  then show ?thesis
    using calculateNodeWeight_pos [of n] sum_weights_nonneg [of ns]
    by (simp add: calculateTotalWeight_sum)
qed

subsection \<open>Fields of a placed node\<close>

lemma createLayoutNode_fields:
  "startAngle (createLayoutNode opts node lay) = Some (l_startAngle lay)"
  "angleRange (createLayoutNode opts node lay) = Some (l_angleRange lay)"
  "depth (createLayoutNode opts node lay) = Some (l_depth lay)"
  "innerRadius (createLayoutNode opts node lay) = Some (l_innerRadius lay)"
  "outerRadius (createLayoutNode opts node lay) = Some (l_outerRadius lay)"
  "isGap (createLayoutNode opts node lay) = isGap node"
  "nid (createLayoutNode opts node lay) = nid node"
  "nvalue (createLayoutNode opts node lay) = nvalue node"
  by (cases node; simp add: Let_def)+

lemma children_createLayoutNode:
  "children (createLayoutNode opts node lay) =
     layoutSiblings opts (calculateTotalWeight (children node))
       (l_angleRange lay - (opt_gapAngle opts * pi) / 180 * real (length (children node)))
       ((opt_gapAngle opts * pi) / 180) (l_depth lay + 1)
       (l_innerRadius lay
          + (l_outerRadius lay - l_innerRadius lay) / (real (opt_maxDepth opts) + 1) * real (l_depth lay + 1))
       (l_innerRadius lay
          + (l_outerRadius lay - l_innerRadius lay) / (real (opt_maxDepth opts) + 1) * real (l_depth lay + 1)
          + (l_outerRadius lay - l_innerRadius lay) / (real (opt_maxDepth opts) + 1))
       (length (children node)) (children node) (l_startAngle lay) 0"
  by (cases node) (simp add: Let_def)

lemma length_layoutSiblings:
  "length (layoutSiblings opts tw av g dep rin rout n cs cur idx) = length cs"
  by (induction cs arbitrary: cur idx) (simp_all add: Let_def)

lemma in_layoutSiblings:
  "x \<in> set (layoutSiblings opts tw av g dep rin rout n cs cur idx) \<Longrightarrow>
     \<exists>c \<in> set cs. \<exists>st. x = createLayoutNode opts c
        \<lparr>l_startAngle = st, l_angleRange = (calculateNodeWeight c / tw) * av, l_depth = dep,
         l_innerRadius = rin, l_outerRadius = rout\<rparr>"
proof (induction cs arbitrary: cur idx)
  case Nil
  then show ?case by simp
next
  case (Cons c cs)
  from Cons.prems
  consider (hd) "x = createLayoutNode opts c
        \<lparr>l_startAngle = cur, l_angleRange = (calculateNodeWeight c / tw) * av, l_depth = dep,
         l_innerRadius = rin, l_outerRadius = rout\<rparr>"
    | (tl) cur' where "x \<in> set (layoutSiblings opts tw av g dep rin rout n cs cur' (idx + 1))"
    by (auto simp add: Let_def split: if_splits)
  then show ?case
  proof cases
    case hd
    then show ?thesis by auto
  next
    case tl
    from Cons.IH [OF tl] show ?thesis by auto
  qed
qed

lemma child_of_placed:
  assumes "x \<in> set (children (createLayoutNode opts node lay))"
  shows "\<exists>c \<in> set (children node). \<exists>st. x = createLayoutNode opts c (childLayout opts node lay c st)"
  using in_layoutSiblings [OF assms [unfolded children_createLayoutNode]]
  by (simp add: childLayout_def)

lemma set_familyPairs:
  "set (familyPairs t) = (Pair t ` set (children t)) \<union> (\<Union>c \<in> set (children t). set (familyPairs c))"
  by (cases t) auto

text \<open>Every parent/child pair of a placed tree, described by the layouts that made it.\<close>

lemma placed_pairs:
  assumes inv0: "I lay"
    and step: "\<And>pn play cn st. I play \<Longrightarrow> cn \<in> set (children pn) \<Longrightarrow> I (childLayout opts pn play cn st)"
    and mem: "(p, c) \<in> set (familyPairs (createLayoutNode opts node lay))"
  shows "\<exists>pn play cn st. I play \<and> cn \<in> set (children pn)
           \<and> p = createLayoutNode opts pn play
           \<and> c = createLayoutNode opts cn (childLayout opts pn play cn st)"
  using inv0 mem
proof (induction node arbitrary: lay)
  case (Node i v s a d ri ro g cs)
  let ?n = "Node i v s a d ri ro g cs"
  from Node.prems(2)
  consider (direct) "p = createLayoutNode opts ?n lay" "c \<in> set (children (createLayoutNode opts ?n lay))"
    | (deeper) x where "x \<in> set (children (createLayoutNode opts ?n lay))" "(p, c) \<in> set (familyPairs x)"
    unfolding set_familyPairs [of "createLayoutNode opts ?n lay"] by auto
  then show ?case
  proof cases
    case direct
    from child_of_placed [OF direct(2)] obtain cn st where
      "cn \<in> set (children ?n)" "c = createLayoutNode opts cn (childLayout opts ?n lay cn st)"
      by blast
    with direct(1) Node.prems(1) show ?thesis by blast
  next
    case deeper
    from child_of_placed [OF deeper(1)] obtain cn st where
      cn: "cn \<in> set (children ?n)" and x: "x = createLayoutNode opts cn (childLayout opts ?n lay cn st)"
      by blast
    have "I (childLayout opts ?n lay cn st)" using step [OF Node.prems(1) cn] .
    moreover have "cn \<in> set cs" using cn by simp
    ultimately show ?thesis using Node.IH deeper(2) x by blast
  qed
qed

lemma layoutOf_unfold:
  "layoutOf opts nodes =
     (if nodes = [] then []
      else layoutSiblings opts (calculateTotalWeight nodes)
             (2 * pi - (opt_gapAngle opts * pi) / 180 * real (length nodes))
             ((opt_gapAngle opts * pi) / 180) 0 (opt_innerRadius opts) (opt_outerRadius opts)
             (length nodes) nodes 0 0)"
  by (simp add: layoutOf_def calculateLayout_def Let_def)


lemma root_of_layout:
  assumes "r \<in> set (layoutOf opts nodes)"
  shows "\<exists>n \<in> set nodes. \<exists>st. r = createLayoutNode opts n (rootLayout opts nodes n st)"
proof -
  from assms have ne: "nodes \<noteq> []" by (auto simp add: layoutOf_unfold split: if_splits)
  with assms have "r \<in> set (layoutSiblings opts (calculateTotalWeight nodes)
             (2 * pi - (opt_gapAngle opts * pi) / 180 * real (length nodes))
             ((opt_gapAngle opts * pi) / 180) 0 (opt_innerRadius opts) (opt_outerRadius opts)
             (length nodes) nodes 0 0)"
    by (simp add: layoutOf_unfold)
  from in_layoutSiblings [OF this] show ?thesis by (simp add: rootLayout_def)
qed


section \<open>Properties of the recursive layout\<close>

lemma childLayout_fields:
  "l_depth (childLayout opts pn play cn st) = l_depth play + 1"
  "l_innerRadius (childLayout opts pn play cn st) = l_innerRadius play
         + (l_outerRadius play - l_innerRadius play) / (real (opt_maxDepth opts) + 1) * real (l_depth play + 1)"
  "l_outerRadius (childLayout opts pn play cn st) = l_innerRadius play
         + (l_outerRadius play - l_innerRadius play) / (real (opt_maxDepth opts) + 1) * real (l_depth play + 1)
         + (l_outerRadius play - l_innerRadius play) / (real (opt_maxDepth opts) + 1)"
  "l_angleRange (childLayout opts pn play cn st) =
      (calculateNodeWeight cn / calculateTotalWeight (children pn))
         * (l_angleRange play - (opt_gapAngle opts * pi) / 180 * real (length (children pn)))"
  "l_startAngle (childLayout opts pn play cn st) = st"
  by (simp_all add: childLayout_def)

lemma forest_pair_cases:
  assumes "(p, c) \<in> set (forestPairs (layoutOf opts nodes))"
  shows "\<exists>n \<in> set nodes. \<exists>st. (p, c) \<in> set (familyPairs (createLayoutNode opts n (rootLayout opts nodes n st)))"
proof -
  from assms obtain r where r: "r \<in> set (layoutOf opts nodes)" and pc: "(p, c) \<in> set (familyPairs r)"
    by (auto simp add: forestPairs_def)
  from root_of_layout [OF r] pc show ?thesis by blast
qed


lemma length_children_placed:
  "length (children (createLayoutNode opts node lay)) = length (children node)"
  by (simp add: children_createLayoutNode length_layoutSiblings)

lemma children_placed_empty_iff:
  "children (createLayoutNode opts node lay) = [] \<longleftrightarrow> children node = []"
  using length_children_placed [of opts node lay] by (metis length_0_conv)

lemma weight_of_placed:
  "calculateNodeWeight (createLayoutNode opts node lay) = calculateNodeWeight node"
  by (cases "children node = []")
     (simp_all add: calculateNodeWeight_def createLayoutNode_fields length_children_placed
        children_placed_empty_iff)

lemma weights_of_siblings:
  "map calculateNodeWeight (layoutSiblings opts tw av g dep rin rout n cs cur idx)
     = map calculateNodeWeight cs"
  by (induction cs arbitrary: cur idx) (simp_all add: Let_def weight_of_placed)


lemma totalWeight_of_layout:
  "calculateTotalWeight (layoutOf opts nodes) = calculateTotalWeight nodes"
  by (simp add: calculateTotalWeight_sum layoutOf_unfold weights_of_siblings)

lemma length_layoutOf: "length (layoutOf opts nodes) = length nodes"
  by (simp add: layoutOf_unfold length_layoutSiblings)

lemma share_sign:
  assumes "0 < w" and "0 < tw"
  shows "0 < (w / tw) * av \<longleftrightarrow> 0 < (av::real)"
proof -
  have "0 < w / tw" using assms by simp
  then show ?thesis by (simp only: zero_less_mult_iff) auto
qed

subsection \<open>No truncation\<close>

lemma fold_countNode_siblings:
  assumes "\<And>c lay k. c \<in> set cs \<Longrightarrow> countNode (createLayoutNode opts c lay) k = countNode c k"
  shows "fold countNode (layoutSiblings opts tw av g dep rin rout n cs cur idx) k = fold countNode cs k"
  using assms by (induction cs arbitrary: cur idx k) (simp_all add: Let_def)

lemma countNode_placed: "countNode (createLayoutNode opts node lay) k = countNode node k"
proof (induction node arbitrary: lay k)
  case (Node i v s a d ri ro g cs)
  show ?case
    by (simp add: Let_def fold_countNode_siblings Node.IH)
qed

lemma fold_calculateDepth_siblings:
  assumes "\<And>c lay d m. c \<in> set cs \<Longrightarrow> calculateDepth (createLayoutNode opts c lay) d m = calculateDepth c d m"
  shows "fold (\<lambda>child. calculateDepth child d) (layoutSiblings opts tw av g dep rin rout n cs cur idx) m
           = fold (\<lambda>child. calculateDepth child d) cs m"
  using assms by (induction cs arbitrary: cur idx m) (simp_all add: Let_def)

lemma calculateDepth_placed:
  "calculateDepth (createLayoutNode opts node lay) d m = calculateDepth node d m"
proof (induction node arbitrary: lay d m)
  case (Node i v s a dd ri ro g cs)
  show ?case
    by (simp add: Let_def fold_calculateDepth_siblings Node.IH)
qed

lemma depthLabelled_placed: "depthLabelled (l_depth lay) (createLayoutNode opts node lay)"
proof (induction node arbitrary: lay)
  case (Node i v s a d ri ro g cs)
  let ?n = "Node i v s a d ri ro g cs"
  have kids: "list_all (depthLabelled (l_depth lay + 1)) (children (createLayoutNode opts ?n lay))"
    unfolding list_all_iff
  proof
    fix x assume "x \<in> set (children (createLayoutNode opts ?n lay))"
    from child_of_placed [OF this] obtain c st where
      c: "c \<in> set cs" and x: "x = createLayoutNode opts c (childLayout opts ?n lay c st)"
      by auto
    from Node.IH [OF c, of "childLayout opts ?n lay c st"]
    show "depthLabelled (l_depth lay + 1) x" by (simp add: x childLayout_fields)
  qed
  obtain i' v' s' a' d' ri' ro' g' cs' where
    shape: "createLayoutNode opts ?n lay = Node i' v' s' a' d' ri' ro' g' cs'"
    by (cases "createLayoutNode opts ?n lay")
  have "depth (createLayoutNode opts ?n lay) = Some (l_depth lay)"
    by (rule createLayoutNode_fields)
  then have "d' = Some (l_depth lay)"
    by (simp only: shape node.sel)
  moreover have "list_all (depthLabelled (l_depth lay + 1)) cs'"
    using kids by (simp only: shape node.sel)
  ultimately show ?case by (simp only: shape depthLabelled.simps)
qed


subsection \<open>Evaluated layouts\<close>

lemmas layout_eval = layoutOf_def calculateLayout_def calculateTotalWeight_def calculateNodeWeight_def
  rawNode_def Let_def

lemma layout_chain3:
  "layoutOf shallowOptions chain3 =
     [Node (Some ''a'') (Some 1) (Some 0) (Some (119 * pi / 60)) (Some 0)
        (Some (3 / 20)) (Some (9 / 10)) False
        [Node (Some ''b'') (Some 1) (Some 0) (Some (59 * pi / 30)) (Some 1)
           (Some (21 / 40)) (Some (9 / 10)) False
           [Node (Some ''c'') (Some 1) (Some 0) (Some (39 * pi / 20)) (Some 2)
              (Some (9 / 10)) (Some (87 / 80)) False []]]]"
  by (simp add: layout_eval shallowOptions_def chain3_def)

lemma layout_single:
  "layoutOf defaultOptions [rawNode ''r'' 1 []] =
     [Node (Some ''r'') (Some 1) (Some 0) (Some (119 * pi / 60)) (Some 0)
        (Some (3 / 20)) (Some (9 / 10)) False []]"
  by (simp add: layout_eval defaultOptions_def)


section \<open>Properties of gap insertion and removal\<close>

subsection \<open>Field lemmas for the gap functions\<close>

lemma setAngles_sel:
  "nid (setAngles s a node) = nid node"
  "nvalue (setAngles s a node) = nvalue node"
  "startAngle (setAngles s a node) = s"
  "angleRange (setAngles s a node) = a"
  "depth (setAngles s a node) = depth node"
  "innerRadius (setAngles s a node) = innerRadius node"
  "outerRadius (setAngles s a node) = outerRadius node"
  "isGap (setAngles s a node) = isGap node"
  by (cases node; simp)+

lemma setChildren_sel:
  "nid (setChildren cs node) = nid node"
  "nvalue (setChildren cs node) = nvalue node"
  "startAngle (setChildren cs node) = startAngle node"
  "angleRange (setChildren cs node) = angleRange node"
  "depth (setChildren cs node) = depth node"
  "innerRadius (setChildren cs node) = innerRadius node"
  "outerRadius (setChildren cs node) = outerRadius node"
  "isGap (setChildren cs node) = isGap node"
  "children (setChildren cs node) = cs"
  by (cases node; simp)+

lemma setChildren_twice: "setChildren cs (setChildren cs' node) = setChildren cs node"
  by (cases node) simp

lemma setChildren_same: "setChildren (children node) node = node"
  by (cases node) simp

lemma setAngles_twice: "setAngles s a (setAngles s' a' node) = setAngles s a node"
  by (cases node) simp

lemma setAngles_same: "setAngles (startAngle node) (angleRange node) node = node"
  by (cases node) simp

lemma setAngles_setChildren: "setAngles s a (setChildren cs node) = setChildren cs (setAngles s a node)"
  by (cases node) simp

lemma createGapNode_isGap: "isGap (createGapNode s a parent k)"
  by (simp add: createGapNode_def Let_def)

lemma createGapNode_setAngles: "createGapNode x y (setAngles s a parent) k = createGapNode x y parent k"
  by (simp add: createGapNode_def setAngles_sel)

lemma isGap_processNode: "isGap (processNode opts g node par ps) = isGap node"
  by (simp add: processNode.simps [of opts g node par ps] Let_def setChildren_sel)

lemma insertLoop_setAngles_parent:
  "insertLoop opts g (setAngles s a parent) ca cc cs cur idx gi = insertLoop opts g parent ca cc cs cur idx gi"
  by (induction cs arbitrary: cur idx gi) (simp_all add: Let_def createGapNode_setAngles)

lemma processNode_setAngles:
  "processNode opts g (setAngles s a node) par ps = setAngles s a (processNode opts g node par ps)"
  by (simp add: processNode.simps [of opts g _ par ps] Let_def children_setAngles
      insertLoop_setAngles_parent setAngles_setChildren)

text \<open>The children that are not gaps, after the loop: the old ones, processed.\<close>

lemma filter_insertLoop:
  "list_all2 (\<lambda>z c. \<exists>x y p q. z = processNode opts g (setAngles x y c) p q)
     (filter (\<lambda>c. \<not> isGap c) (insertLoop opts g parent ca cc cs cur idx gi))
     (filter (\<lambda>c. \<not> isGap c) cs)"
proof (induction cs arbitrary: cur idx gi)
  case Nil
  show ?case by simp
next
  case (Cons c cs)
  show ?case
    using Cons.IH
    by (auto simp add: Let_def isGap_processNode setAngles_sel createGapNode_isGap)
qed


lemma removeGapsFromNode_unfold:
  "removeGapsFromNode node =
     setChildren
       (map (\<lambda>ic. removeGapsFromNode
               (setAngles
                  (add_opt (startAngle node)
                     (mul_opt (div_opt (angleRange node)
                                 (length (filter (\<lambda>c. \<not> isGap c) (children node)))) (fst ic)))
                  (div_opt (angleRange node) (length (filter (\<lambda>c. \<not> isGap c) (children node))))
                  (snd ic)))
          (enumerate 0 (filter (\<lambda>c. \<not> isGap c) (children node))))
       node"
  by (subst removeGapsFromNode.simps) (simp add: Let_def)

lemma map_enumerate_related:
  assumes "list_all2 Q zs rc"
    and "\<And>z c s a. c \<in> set rc \<Longrightarrow> Q z c \<Longrightarrow>
           removeGapsFromNode (setAngles s a z) = removeGapsFromNode (setAngles s a c)"
  shows "map (\<lambda>ic. removeGapsFromNode (setAngles (f (fst ic)) ca (snd ic))) (enumerate n zs)
       = map (\<lambda>ic. removeGapsFromNode (setAngles (f (fst ic)) ca (snd ic))) (enumerate n rc)"
  using assms
proof (induction zs rc arbitrary: n rule: list_all2_induct)
  case Nil
  show ?case by simp
next
  case (Cons z zs c rc)
  have hd: "removeGapsFromNode (setAngles (f n) ca z) = removeGapsFromNode (setAngles (f n) ca c)"
    using Cons.prems [of c z] Cons.hyps(1) by simp
  have tl: "map (\<lambda>ic. removeGapsFromNode (setAngles (f (fst ic)) ca (snd ic))) (enumerate (Suc n) zs)
       = map (\<lambda>ic. removeGapsFromNode (setAngles (f (fst ic)) ca (snd ic))) (enumerate (Suc n) rc)"
    using Cons.IH [of "Suc n"] Cons.prems by simp
  show ?case using hd tl by simp
qed

lemma removeGaps_after_processNode:
  "removeGapsFromNode (processNode opts g node par ps) = removeGapsFromNode node"
proof (induction "treeSize node" arbitrary: node par ps rule: less_induct)
  case less
  show ?case
  proof (cases "length (children node) < gm_minChildrenForGap opts")
    case True
    then show ?thesis by (simp add: processNode.simps [of opts g node par ps])
  next
    case False
    define ca where "ca = (par - g * real (length (children node))) / real (length (children node))"
    define L where "L = insertLoop opts g node ca (length (children node)) (children node) ps 0 0"
    define rc where "rc = filter (\<lambda>c. \<not> isGap c) (children node)"
    define zs where "zs = filter (\<lambda>c. \<not> isGap c) L"
    have pn: "processNode opts g node par ps = setChildren L node"
      using False by (simp add: processNode.simps [of opts g node par ps] Let_def L_def ca_def)
    have rel: "list_all2 (\<lambda>z c. \<exists>x y p q. z = processNode opts g (setAngles x y c) p q) zs rc"
      unfolding zs_def rc_def L_def by (rule filter_insertLoop)
    then have len: "length zs = length rc" by (rule list_all2_lengthD)
    have step: "removeGapsFromNode (setAngles s a z) = removeGapsFromNode (setAngles s a c)"
      if c: "c \<in> set rc" and z: "\<exists>x y p q. z = processNode opts g (setAngles x y c) p q"
      for z c s a
    proof -
      from z obtain x y p q where z': "z = processNode opts g (setAngles x y c) p q" by blast
      from c have "c \<in> set (children node)" by (simp add: rc_def)
      from treeSize_member [OF this] treeSize_children [of node]
      have small: "treeSize (setAngles s a c) < treeSize node" by (simp add: treeSize_setAngles)
      have "setAngles s a z = processNode opts g (setAngles s a c) p q"
        by (simp add: z' processNode_setAngles setAngles_twice)
      then show ?thesis using less.hyps [OF small] by simp
    qed
    have maps: "map (\<lambda>ic. removeGapsFromNode (setAngles (f (fst ic)) a (snd ic))) (enumerate 0 zs)
              = map (\<lambda>ic. removeGapsFromNode (setAngles (f (fst ic)) a (snd ic))) (enumerate 0 rc)"
      for f a
      using map_enumerate_related [OF rel] step by blast
    let ?f = "\<lambda>k. add_opt (startAngle node) (mul_opt (div_opt (angleRange node) (length rc)) k)"
    let ?a = "div_opt (angleRange node) (length rc)"
    have "removeGapsFromNode (setChildren L node)
            = setChildren
                (map (\<lambda>ic. removeGapsFromNode (setAngles (?f (fst ic)) ?a (snd ic))) (enumerate 0 zs))
                node"
      by (subst removeGapsFromNode_unfold [of "setChildren L node"])
         (simp only: setChildren_sel setChildren_twice zs_def [symmetric] len)
    also have "\<dots> = setChildren
                (map (\<lambda>ic. removeGapsFromNode (setAngles (?f (fst ic)) ?a (snd ic))) (enumerate 0 rc))
                node"
      by (simp only: maps [of ?f ?a])
    also have "\<dots> = removeGapsFromNode node"
      by (subst removeGapsFromNode_unfold [of node]) (simp only: rc_def [symmetric])
    finally show ?thesis by (simp add: pn)
  qed
qed

lemma removeGaps_after_insertGaps: "removeGaps (insertGaps opts data) = removeGaps data"
  by (simp add: removeGaps_def insertGaps_def Let_def removeGaps_after_processNode)


lemma removeGapsFromNode_sel:
  "startAngle (removeGapsFromNode node) = startAngle node"
  "angleRange (removeGapsFromNode node) = angleRange node"
  "isGap (removeGapsFromNode node) = isGap node"
  by (subst removeGapsFromNode_unfold, simp only: setChildren_sel)+

lemma evenlyPartitioned_iff:
  "evenlyPartitioned node \<longleftrightarrow>
     (\<forall>k < length (children node).
          \<not> isGap (children node ! k)
        \<and> angleRange (children node ! k) = div_opt (angleRange node) (length (children node))
        \<and> startAngle (children node ! k)
            = add_opt (startAngle node) (mul_opt (div_opt (angleRange node) (length (children node))) k)
        \<and> evenlyPartitioned (children node ! k))"
  by (cases node) (auto simp add: list_all_length nth_enumerate_eq)

lemma evenlyPartitioned_removeGapsFromNode: "evenlyPartitioned (removeGapsFromNode node)"
proof (induction "treeSize node" arbitrary: node rule: less_induct)
  case less
  define rc where "rc = filter (\<lambda>c. \<not> isGap c) (children node)"
  define ca where "ca = div_opt (angleRange node) (length rc)"
  define f where "f = (\<lambda>k. add_opt (startAngle node) (mul_opt ca k))"
  define out where "out = map (\<lambda>ic. removeGapsFromNode (setAngles (f (fst ic)) ca (snd ic))) (enumerate 0 rc)"
  have R: "removeGapsFromNode node = setChildren out node"
    by (subst removeGapsFromNode_unfold) (simp only: out_def f_def ca_def rc_def)
  have len: "length out = length rc" by (simp add: out_def)
  have nth_out: "out ! k = removeGapsFromNode (setAngles (f k) ca (rc ! k))" if "k < length rc" for k
    using that by (simp add: out_def nth_enumerate_eq)
  have real: "\<not> isGap (rc ! k)" if "k < length rc" for k
    using nth_mem [OF that] by (simp add: rc_def)
  have small: "treeSize (setAngles s a (rc ! k)) < treeSize node" if "k < length rc" for k s a
  proof -
    from nth_mem [OF that] have "rc ! k \<in> set (children node)" by (simp add: rc_def)
    from treeSize_member [OF this] treeSize_children [of node]
    show ?thesis by (simp add: treeSize_setAngles)
  qed
  have "evenlyPartitioned (setChildren out node)"
    unfolding evenlyPartitioned_iff [of "setChildren out node"] setChildren_sel len
  proof (intro allI impI)
    fix k assume k: "k < length rc"
    show "\<not> isGap (out ! k) \<and> angleRange (out ! k) = div_opt (angleRange node) (length rc)
        \<and> startAngle (out ! k) = add_opt (startAngle node) (mul_opt (div_opt (angleRange node) (length rc)) k)
        \<and> evenlyPartitioned (out ! k)"
      using real [OF k] less.hyps [OF small [OF k]]
      by (simp add: nth_out [OF k] removeGapsFromNode_sel setAngles_sel ca_def f_def)
  qed
  then show ?case by (simp add: R)
qed

lemma removeGapsFromNode_fixed: "evenlyPartitioned node \<Longrightarrow> removeGapsFromNode node = node"
proof (induction "treeSize node" arbitrary: node rule: less_induct)
  case less
  note ev = less.prems [unfolded evenlyPartitioned_iff [of node]]
  have nogap: "filter (\<lambda>c. \<not> isGap c) (children node) = children node"
    using ev by (auto simp add: filter_id_conv in_set_conv_nth)
  define cs where "cs = children node"
  define ca where "ca = div_opt (angleRange node) (length cs)"
  define f where "f = (\<lambda>k. add_opt (startAngle node) (mul_opt ca k))"
  have "map (\<lambda>ic. removeGapsFromNode (setAngles (f (fst ic)) ca (snd ic))) (enumerate 0 cs) = cs"
  proof (rule nth_equalityI)
    show "length (map (\<lambda>ic. removeGapsFromNode (setAngles (f (fst ic)) ca (snd ic))) (enumerate 0 cs))
            = length cs" by simp
  next
    fix k assume "k < length (map (\<lambda>ic. removeGapsFromNode (setAngles (f (fst ic)) ca (snd ic))) (enumerate 0 cs))"
    then have k: "k < length cs" by simp
    from ev k have angles: "angleRange (cs ! k) = ca" "startAngle (cs ! k) = f k"
      and sub: "evenlyPartitioned (cs ! k)"
      by (simp_all add: cs_def ca_def f_def)
    from nth_mem [OF k] have "cs ! k \<in> set (children node)" by (simp add: cs_def)
    from treeSize_member [OF this] treeSize_children [of node]
    have "treeSize (cs ! k) < treeSize node" by simp
    from less.hyps [OF this sub] have fixed: "removeGapsFromNode (cs ! k) = cs ! k" .
    have "setAngles (f k) ca (cs ! k) = cs ! k"
      using setAngles_same [of "cs ! k"] angles by simp
    then show "map (\<lambda>ic. removeGapsFromNode (setAngles (f (fst ic)) ca (snd ic))) (enumerate 0 cs) ! k = cs ! k"
      using k fixed by (simp add: nth_enumerate_eq)
  qed
  then have "removeGapsFromNode node = setChildren (children node) node"
    unfolding f_def ca_def cs_def
    by (subst removeGapsFromNode_unfold) (simp only: nogap)
  then show ?case by (simp add: setChildren_same)
qed


subsection \<open>More evaluated examples\<close>

lemmas gap_eval = insertGaps_def removeGaps_def processNode.simps removeGapsFromNode.simps
  createGapNode_def Let_def defaultGapOptions_def div_opt_def mul_opt_def

lemma layout_oneThree_gapless:
  "layoutOf gaplessOptions oneThree =
     [Node (Some ''root'') (Some 1) (Some 0) (Some (2 * pi)) (Some 0) (Some (3 / 20)) (Some (9 / 10)) False
        [Node (Some ''A'') (Some 1) (Some 0) (Some (pi / 2)) (Some 1) (Some (12 / 55)) (Some (63 / 220))
           False [],
         Node (Some ''B'') (Some 3) (Some (pi / 2)) (Some (3 * pi / 2)) (Some 1) (Some (12 / 55))
           (Some (63 / 220)) False []]]"
  by (simp add: layout_eval gaplessOptions_def oneThree_def)

lemma layout_twoEqual_gapless:
  "layoutOf gaplessOptions twoEqual =
     [Node (Some ''root'') (Some 1) (Some 0) (Some (2 * pi)) (Some 0) (Some (3 / 20)) (Some (9 / 10)) False
        [Node (Some ''A'') (Some 1) (Some 0) (Some pi) (Some 1) (Some (12 / 55)) (Some (63 / 220))
           False [],
         Node (Some ''B'') (Some 1) (Some pi) (Some pi) (Some 1) (Some (12 / 55))
           (Some (63 / 220)) False []]]"
  by (simp add: layout_eval gaplessOptions_def twoEqual_def)

lemma layout_oneThree_default:
  "layoutOf defaultOptions oneThree =
     [Node (Some ''root'') (Some 1) (Some 0) (Some (119 * pi / 60)) (Some 0) (Some (3 / 20)) (Some (9 / 10))
        False
        [Node (Some ''A'') (Some 1) (Some 0) (Some (39 * pi / 80)) (Some 1) (Some (12 / 55))
           (Some (63 / 220)) False [],
         Node (Some ''B'') (Some 3) (Some (121 * pi / 240)) (Some (117 * pi / 80)) (Some 1)
           (Some (12 / 55)) (Some (63 / 220)) False []]]"
  by (simp add: layout_eval defaultOptions_def oneThree_def)

lemma layout_oneThree_ten:
  "layoutOf tenDegreeOptions oneThree =
     [Node (Some ''root'') (Some 1) (Some 0) (Some (35 * pi / 18)) (Some 0) (Some (3 / 20)) (Some (9 / 10))
        False
        [Node (Some ''A'') (Some 1) (Some 0) (Some (11 * pi / 24)) (Some 1) (Some (12 / 55))
           (Some (63 / 220)) False [],
         Node (Some ''B'') (Some 3) (Some (37 * pi / 72)) (Some (11 * pi / 8)) (Some 1)
           (Some (12 / 55)) (Some (63 / 220)) False []]]"
  by (simp add: layout_eval tenDegreeOptions_def oneThree_def)


section \<open>Properties of hit testing\<close>

lemma findNodeByPolar_None_iff:
  "findNodeByPolar angle r nodes = None
     \<longleftrightarrow> (\<forall>n \<in> set nodes. \<not> (angleInRange angle n \<and> radiusInRange r n))"
proof (induction nodes)
  case Nil
  show ?case by simp
next
  case (Cons n ns)
  obtain i v s a d ri ro g cs where n: "n = Node i v s a d ri ro g cs" by (cases n)
  show ?case
    using Cons.IH by (auto simp add: n split: option.splits)
qed

lemma findNodeByPolar_contains:
  "findNodeByPolar angle r nodes = Some m \<Longrightarrow> angleInRange angle m \<and> radiusInRange r m"
proof (induction angle r nodes rule: findNodeByPolar.induct)
  case (1 angle r)
  then show ?case by simp
next
  case (2 angle r i v s a d ri ro g cs rest)
  let ?n = "Node i v s a d ri ro g cs"
  show ?case
  proof (cases "angleInRange angle ?n \<and> radiusInRange r ?n")
    case False
    with "2.prems" have "findNodeByPolar angle r rest = Some m" by simp
    with "2.IH"(2) False show ?thesis by blast
  next
    case hit: True
    show ?thesis
    proof (cases "cs \<noteq> [] \<and> findNodeByPolar angle r cs \<noteq> None")
      case True
      then obtain c where c: "findNodeByPolar angle r cs = Some c" by auto
      with "2.prems" hit True have "m = c" by simp
      with "2.IH"(1) hit True c show ?thesis by blast
    next
      case False
      with "2.prems" hit have "m = ?n" by (auto split: option.splits if_splits)
      with hit show ?thesis by simp
    qed
  qed
qed

lemma radiusInRange_has_ring:
  "radiusInRange r m \<Longrightarrow> innerRadius m \<noteq> None \<and> outerRadius m \<noteq> None"
  by (cases "innerRadius m"; cases "outerRadius m") (simp_all add: radiusInRange_def)


section \<open>Properties of gap insertion on the store\<close>

lemma processNodeS_returns_argument:
  "processNodeS fuel opts g node par ps st = Some (r, st') \<Longrightarrow> r = node"
  by (cases fuel) (auto simp add: Let_def split: option.splits if_splits prod.splits)

lemma processRootsS_returns_argument:
  "processRootsS fuel opts g data st = Some (res, st') \<Longrightarrow> res = data"
proof (induction data arbitrary: st res)
  case Nil
  then show ?case by simp
next
  case (Cons n ns)
  from Cons.prems obtain r st1 rs where
    a: "processNodeS fuel opts g n (2 * pi) 0 st = Some (r, st1)"
    and b: "processRootsS fuel opts g ns st1 = Some (rs, st')"
    and c: "res = r # rs"
    by (auto split: option.splits prod.splits)
  from processNodeS_returns_argument [OF a] Cons.IH [OF b] c show ?case by simp
qed

lemma insertLoopS_length:
  assumes "insertLoopS fuel opts g parent ca cc cs cur idx gi st = Some (out, st')"
    and "idx + length cs = cc" and "cs \<noteq> []"
  shows "length out = 2 * length cs - 1"
  using assms
proof (induction cs arbitrary: cur idx gi st out)
  case Nil
  then show ?case by simp
next
  case (Cons c rest)
  show ?case
  proof (cases rest)
    case Nil
    with Cons.prems show ?thesis
      by (auto simp add: Let_def split: option.splits prod.splits if_splits)
  next
    case (Cons c' rest')
    with Cons.prems(2) have lt: "idx + 1 < cc" by simp
    from Cons.prems(1) lt obtain tl cur' gi' st3 gapRef pr where
      tl: "insertLoopS fuel opts g parent ca cc rest cur' (idx + 1) gi' st3 = Some (tl, st')"
      and out: "out = pr # gapRef # tl"
      by (auto simp add: Let_def split: option.splits prod.splits if_splits)
    have "length tl = 2 * length rest - 1"
      using Cons.IH [OF tl] Cons.prems(2) Cons by simp
    with out Cons show ?thesis by simp
  qed
qed

lemma processNodeS_splices_gaps:
  assumes run: "processNodeS fuel opts g node par ps st = Some (r, st')"
    and ob: "heap st node = Some ob"
    and enough: "gm_minChildrenForGap opts \<le> length (o_children ob)"
    and kids: "o_children ob \<noteq> []"
  shows "\<exists>ob'. heap st' node = Some ob' \<and> length (o_children ob') = 2 * length (o_children ob) - 1"
proof -
  from run obtain f where fuel: "fuel = Suc f" by (cases fuel) auto
  define ca where "ca = (par - g * real (length (o_children ob))) / real (length (o_children ob))"
  from run ob enough obtain out st1 current where
    loop: "insertLoopS f opts g node ca (length (o_children ob)) (o_children ob) ps 0 0 st = Some (out, st1)"
    and st': "st' = writeObj node (current\<lparr>o_children := out\<rparr>) st1"
    unfolding fuel ca_def
    by (auto simp add: Let_def split: option.splits prod.splits if_splits)
  from insertLoopS_length [OF loop _ kids] have "length out = 2 * length (o_children ob) - 1" by simp
  then show ?thesis by (simp add: st' writeObj_def)
qed

lemmas store_eval = insertGapsS_def createGapNodeS_def allocObj_def writeObj_def Let_def
  defaultGapOptions_def exampleStore_def

lemma example_run:
  "insertGapsS 2 defaultGapOptions [0] exampleStore = Some ([0], exampleStoreAfter)"
proof -
  have "heap exampleStoreAfter = [Suc 0 \<mapsto>
            \<lparr>o_id = Some ''A'', o_value = Some 1, o_startAngle = Some 0,
               o_angleRange = Some (59 * pi / 60), o_isGap = False,
               o_children = []\<rparr>,
            Suc (Suc (Suc 0)) \<mapsto>
            \<lparr>o_id = Some ''gap_root_0'', o_value = Some 0,
               o_startAngle = Some (59 * pi / 60),
               o_angleRange = Some (pi / 60), o_isGap = True,
               o_children = []\<rparr>,
            Suc (Suc 0) \<mapsto>
            \<lparr>o_id = Some ''B'', o_value = Some 1, o_startAngle = Some pi,
               o_angleRange = Some (59 * pi / 60), o_isGap = False,
               o_children = []\<rparr>,
            0 \<mapsto>
            \<lparr>o_id = Some ''root'', o_value = Some 1, o_startAngle = None,
               o_angleRange = None, o_isGap = False,
               o_children = [Suc 0, Suc (Suc (Suc 0)), Suc (Suc 0)]\<rparr>]"
    by (rule ext) (simp add: exampleStoreAfter_def eval_nat_numeral)
  then show ?thesis
    by (simp add: store_eval eval_nat_numeral exampleStoreAfter_def)
qed

lemma example_store_is_the_value_model:
  "readForest 2 exampleStore [0] = Some twoEqual
   \<and> readForest 2 exampleStoreAfter [0] = Some (insertGaps defaultGapOptions twoEqual)"
proof -
  have before: "readForest 2 exampleStore [0] = Some twoEqual"
    by (simp add: exampleStore_def twoEqual_def rawNode_def eval_nat_numeral)
  have tree: "insertGaps defaultGapOptions twoEqual =
      [Node (Some ''root'') (Some 1) None None None None None False
         [Node (Some ''A'') (Some 1) (Some 0) (Some (59 * pi / 60)) None None None False [],
          Node (Some ''gap_root_0'') (Some 0) (Some (59 * pi / 60)) (Some (pi / 60)) None None None True [],
          Node (Some ''B'') (Some 1) (Some pi) (Some (59 * pi / 60)) None None None False []]]"
    by (simp add: gap_eval twoEqual_def rawNode_def)
  have after: "readForest 2 exampleStoreAfter [0] = Some (insertGaps defaultGapOptions twoEqual)"
    unfolding tree by (simp add: exampleStoreAfter_def eval_nat_numeral)
  from before after show ?thesis by simp
qed


subsection \<open>Gap insertion returns on every ranked store\<close>

lemma extendsStore_refl: "extendsStore st st"
  by (simp add: extendsStore_def)

lemma extendsStore_trans: "extendsStore a b \<Longrightarrow> extendsStore b c \<Longrightarrow> extendsStore a c"
  by (auto simp add: extendsStore_def)

lemma rankedStore_child:
  "rankedStore rank n0 st \<Longrightarrow> heap st r = Some ob \<Longrightarrow> c \<in> set (o_children ob)
     \<Longrightarrow> rank c < rank r \<and> heap st c \<noteq> None"
  unfolding rankedStore_def by blast

lemma write_angles_ranked:
  assumes "rankedStore rank n0 st" and "heap st c = Some ob"
  shows "rankedStore rank n0 (writeObj c (ob\<lparr>o_startAngle := x, o_angleRange := y\<rparr>) st)"
    and "extendsStore st (writeObj c (ob\<lparr>o_startAngle := x, o_angleRange := y\<rparr>) st)"
  using assms unfolding rankedStore_def extendsStore_def writeObj_def
  by (auto split: if_splits)

lemma write_children_ranked:
  assumes "rankedStore rank n0 st" and "heap st node = Some cur"
    and "\<forall>e \<in> set out. rank e < rank node \<and> heap st e \<noteq> None"
  shows "rankedStore rank n0 (writeObj node (cur\<lparr>o_children := out\<rparr>) st)"
    and "extendsStore st (writeObj node (cur\<lparr>o_children := out\<rparr>) st)"
  using assms unfolding rankedStore_def extendsStore_def writeObj_def
  by (auto split: if_splits)

lemma createGapNodeS_ranked:
  assumes "rankedStore rank n0 st" and "heap st parent \<noteq> None"
  shows "\<exists>gr st'. createGapNodeS s a parent gi st = Some (gr, st')
           \<and> rankedStore rank n0 st' \<and> extendsStore st st' \<and> n0 \<le> gr \<and> heap st' gr \<noteq> None"
proof -
  from assms(2) obtain pob where pob: "heap st parent = Some pob" by auto
  define gob where "gob = \<lparr>o_id = Some (''gap_''
                 @ (case o_id pob of None \<Rightarrow> ''root'' | Some i \<Rightarrow> if i = [] then ''root'' else i)
                 @ ''_'' @ decimal gi), o_value = Some 0, o_startAngle = Some s,
                              o_angleRange = Some a, o_isGap = True, o_children = []\<rparr>"
  have run: "createGapNodeS s a parent gi st = Some (allocObj gob st)"
    by (simp add: createGapNodeS_def pob Let_def gob_def)
  have kids: "o_children gob = []" by (simp add: gob_def)
  have "rankedStore rank n0 (snd (allocObj gob st))"
    using assms(1) kids unfolding rankedStore_def allocObj_def by (auto split: if_splits)
  moreover have "extendsStore st (snd (allocObj gob st))"
    unfolding extendsStore_def allocObj_def by simp
  moreover have "n0 \<le> fst (allocObj gob st)"
    using assms(1) unfolding rankedStore_def allocObj_def by simp
  moreover have "heap (snd (allocObj gob st)) (fst (allocObj gob st)) \<noteq> None"
    unfolding allocObj_def by simp
  ultimately show ?thesis using run by (cases "allocObj gob st") auto
qed


lemma insertLoopS_total:
  assumes proc: "\<And>c pa ps st. rankedStore rank n0 st \<Longrightarrow> heap st c \<noteq> None \<Longrightarrow> rank c < fuel
            \<Longrightarrow> \<exists>st'. processNodeS fuel opts g c pa ps st = Some (c, st')
                      \<and> rankedStore rank n0 st' \<and> extendsStore st st'"
  shows "rankedStore rank n0 st \<Longrightarrow> heap st parent \<noteq> None
     \<Longrightarrow> \<forall>c \<in> set cs. heap st c \<noteq> None \<and> rank c < fuel
     \<Longrightarrow> \<exists>out st'. insertLoopS fuel opts g parent ca cc cs cur idx gi st = Some (out, st')
           \<and> rankedStore rank n0 st' \<and> extendsStore st st'
           \<and> (\<forall>e \<in> set out. e \<in> set cs \<or> (n0 \<le> e \<and> heap st' e \<noteq> None))
           \<and> (cs = [] \<longrightarrow> out = [])"
proof (induction cs arbitrary: cur idx gi st)
  case Nil
  then show ?case by (simp add: extendsStore_refl)
next
  case (Cons c rest)
  from Cons.prems(3) obtain cob where cob: "heap st c = Some cob" and rc: "rank c < fuel" by auto
  define st1 where "st1 = writeObj c (cob\<lparr>o_startAngle := Some cur, o_angleRange := Some ca\<rparr>) st"
  have r1: "rankedStore rank n0 st1" and e1: "extendsStore st st1"
    unfolding st1_def using write_angles_ranked [OF Cons.prems(1) cob] by blast+
  have "heap st1 c \<noteq> None" by (simp add: st1_def writeObj_def)
  from proc [OF r1 this rc, of ca cur] obtain st2 where
    run2: "processNodeS fuel opts g c ca cur st1 = Some (c, st2)"
    and r2: "rankedStore rank n0 st2" and e2: "extendsStore st1 st2" by blast
  have e02: "extendsStore st st2" using extendsStore_trans [OF e1 e2] .
  show ?case
  proof (cases "idx + 1 < cc")
    case True
    have "heap st2 parent \<noteq> None" using Cons.prems(2) e02 by (simp add: extendsStore_def)
    from createGapNodeS_ranked [OF r2 this, of "cur + ca" g gi] obtain gr st3 where
      gap: "createGapNodeS (cur + ca) g parent gi st2 = Some (gr, st3)"
      and r3: "rankedStore rank n0 st3" and e3: "extendsStore st2 st3"
      and fresh: "n0 \<le> gr" and gthere: "heap st3 gr \<noteq> None" by blast
    have e03: "extendsStore st st3" using extendsStore_trans [OF e02 e3] .
    have p3: "heap st3 parent \<noteq> None" using Cons.prems(2) e03 by (simp add: extendsStore_def)
    have rest3: "\<forall>c' \<in> set rest. heap st3 c' \<noteq> None \<and> rank c' < fuel"
      using Cons.prems(3) e03 by (simp add: extendsStore_def)
    from Cons.IH [OF r3 p3 rest3, of "cur + ca + g" "idx + 1" "gi + 1"] obtain out' st4 where
      run4: "insertLoopS fuel opts g parent ca cc rest (cur + ca + g) (idx + 1) (gi + 1) st3 = Some (out', st4)"
      and r4: "rankedStore rank n0 st4" and e4: "extendsStore st3 st4"
      and el: "\<forall>e \<in> set out'. e \<in> set rest \<or> (n0 \<le> e \<and> heap st4 e \<noteq> None)" by blast
    have run: "insertLoopS fuel opts g parent ca cc (c # rest) cur idx gi st = Some (c # gr # out', st4)"
      using True cob run2 gap run4 by (simp add: Let_def st1_def)
    have "heap st4 gr \<noteq> None" using gthere e4 by (simp add: extendsStore_def)
    with el fresh have "\<forall>e \<in> set (c # gr # out'). e \<in> set (c # rest) \<or> (n0 \<le> e \<and> heap st4 e \<noteq> None)"
      by auto
    with run r4 extendsStore_trans [OF e03 e4] show ?thesis by blast
  next
    case False
    have p2: "heap st2 parent \<noteq> None" using Cons.prems(2) e02 by (simp add: extendsStore_def)
    have rest2: "\<forall>c' \<in> set rest. heap st2 c' \<noteq> None \<and> rank c' < fuel"
      using Cons.prems(3) e02 by (simp add: extendsStore_def)
    from Cons.IH [OF r2 p2 rest2, of "cur + ca" "idx + 1" gi] obtain out' st4 where
      run4: "insertLoopS fuel opts g parent ca cc rest (cur + ca) (idx + 1) gi st2 = Some (out', st4)"
      and r4: "rankedStore rank n0 st4" and e4: "extendsStore st2 st4"
      and el: "\<forall>e \<in> set out'. e \<in> set rest \<or> (n0 \<le> e \<and> heap st4 e \<noteq> None)" by blast
    have run: "insertLoopS fuel opts g parent ca cc (c # rest) cur idx gi st = Some (c # out', st4)"
      using False cob run2 run4 by (simp add: Let_def st1_def)
    from el have "\<forall>e \<in> set (c # out'). e \<in> set (c # rest) \<or> (n0 \<le> e \<and> heap st4 e \<noteq> None)"
      by auto
    with run r4 extendsStore_trans [OF e02 e4] show ?thesis by blast
  qed
qed

lemma processNodeS_total:
  "rankedStore rank n0 st \<Longrightarrow> heap st node \<noteq> None \<Longrightarrow> rank node < fuel
     \<Longrightarrow> \<exists>st'. processNodeS fuel opts g node pa ps st = Some (node, st')
            \<and> rankedStore rank n0 st' \<and> extendsStore st st'"
proof (induction fuel arbitrary: node pa ps st)
  case 0
  then show ?case by simp
next
  case (Suc f)
  from Suc.prems(2) obtain nob where nob: "heap st node = Some nob" by auto
  show ?case
  proof (cases "length (o_children nob) < gm_minChildrenForGap opts")
    case True
    with nob Suc.prems(1) show ?thesis by (simp add: extendsStore_refl)
  next
    case False
    define cc where "cc = length (o_children nob)"
    define ca where "ca = (pa - g * real cc) / real cc"
    have kids: "\<forall>c \<in> set (o_children nob). heap st c \<noteq> None \<and> rank c < f"
    proof
      fix c assume "c \<in> set (o_children nob)"
      from rankedStore_child [OF Suc.prems(1) nob this] Suc.prems(3)
      show "heap st c \<noteq> None \<and> rank c < f" by simp
    qed
    from insertLoopS_total [of rank n0 f opts g st node "o_children nob" ca cc ps 0 0,
        OF Suc.IH Suc.prems(1) Suc.prems(2) kids]
    obtain out st1 where
      loop: "insertLoopS f opts g node ca cc (o_children nob) ps 0 0 st = Some (out, st1)"
      and r1: "rankedStore rank n0 st1" and e1: "extendsStore st st1"
      and el: "\<forall>e \<in> set out. e \<in> set (o_children nob) \<or> (n0 \<le> e \<and> heap st1 e \<noteq> None)"
      and emp: "o_children nob = [] \<longrightarrow> out = []"
      by blast
    from e1 Suc.prems(2) obtain cur where cur: "heap st1 node = Some cur"
      by (auto simp add: extendsStore_def)
    have below: "\<forall>e \<in> set out. rank e < rank node \<and> heap st1 e \<noteq> None"
    proof
      fix e assume e: "e \<in> set out"
      with emp obtain c0 where c0: "c0 \<in> set (o_children nob)" by (cases "o_children nob") auto
      from rankedStore_child [OF Suc.prems(1) nob c0] have pos: "0 < rank node" by simp
      from el e consider (old) "e \<in> set (o_children nob)" | (new) "n0 \<le> e" "heap st1 e \<noteq> None"
        by blast
      then show "rank e < rank node \<and> heap st1 e \<noteq> None"
      proof cases
        case old
        from rankedStore_child [OF Suc.prems(1) nob old] e1 show ?thesis
          by (simp add: extendsStore_def)
      next
        case new
        from r1 new(1) have "rank e = 0" by (simp add: rankedStore_def)
        with pos new(2) show ?thesis by simp
      qed
    qed
    from write_children_ranked [OF r1 cur below]
    have r2: "rankedStore rank n0 (writeObj node (cur\<lparr>o_children := out\<rparr>) st1)"
      and e2: "extendsStore st1 (writeObj node (cur\<lparr>o_children := out\<rparr>) st1)" by blast+
    have "processNodeS (Suc f) opts g node pa ps st
            = Some (node, writeObj node (cur\<lparr>o_children := out\<rparr>) st1)"
      using False nob loop cur by (simp add: Let_def cc_def ca_def)
    with r2 extendsStore_trans [OF e1 e2] show ?thesis by blast
  qed
qed

lemma processRootsS_total:
  "rankedStore rank n0 st \<Longrightarrow> \<forall>r \<in> set data. heap st r \<noteq> None \<and> rank r < fuel
     \<Longrightarrow> \<exists>st'. processRootsS fuel opts g data st = Some (data, st')
            \<and> rankedStore rank n0 st' \<and> extendsStore st st'"
proof (induction data arbitrary: st)
  case Nil
  then show ?case by (simp add: extendsStore_refl)
next
  case (Cons r rs)
  from Cons.prems(2) have "heap st r \<noteq> None" "rank r < fuel" by auto
  from processNodeS_total [OF Cons.prems(1) this, of opts g "2 * pi" 0] obtain st1 where
    run1: "processNodeS fuel opts g r (2 * pi) 0 st = Some (r, st1)"
    and r1: "rankedStore rank n0 st1" and e1: "extendsStore st st1" by blast
  have "\<forall>r' \<in> set rs. heap st1 r' \<noteq> None \<and> rank r' < fuel"
    using Cons.prems(2) e1 by (simp add: extendsStore_def)
  from Cons.IH [OF r1 this] obtain st2 where
    run2: "processRootsS fuel opts g rs st1 = Some (rs, st2)"
    and r2: "rankedStore rank n0 st2" and e2: "extendsStore st1 st2" by blast
  have "processRootsS fuel opts g (r # rs) st = Some (r # rs, st2)"
    using run1 run2 by simp
  with r2 extendsStore_trans [OF e1 e2] show ?case by blast
qed

lemma insertGapsS_total:
  assumes "rankedStore rank n0 st" and "\<forall>r \<in> set data. heap st r \<noteq> None \<and> rank r < fuel"
  shows "\<exists>st'. insertGapsS fuel opts data st = Some (data, st')"
  using processRootsS_total [OF assms] by (auto simp add: insertGapsS_def Let_def)

lemma exampleStore_ranked: "rankedStore exampleRank 3 exampleStore"
  unfolding rankedStore_def exampleStore_def exampleRank_def
  by (auto split: if_splits)


section \<open>The store functions compute the value functions\<close>

subsection \<open>Reading is local\<close>



lemma forest_frame_from_tree:
  assumes tree: "\<And>r. (\<forall>x \<in> set (refsOf f st r). heap st' x = heap st x)
            \<Longrightarrow> readTree f st' r = readTree f st r \<and> refsOf f st' r = refsOf f st r"
  shows "(\<forall>x \<in> set (refsOfForest f st rs). heap st' x = heap st x)
     \<Longrightarrow> readForest f st' rs = readForest f st rs \<and> refsOfForest f st' rs = refsOfForest f st rs"
proof (induction rs)
  case Nil
  show ?case by simp
next
  case (Cons r rs)
  from Cons.prems have a: "\<forall>x \<in> set (refsOf f st r). heap st' x = heap st x"
    and b: "\<forall>x \<in> set (refsOfForest f st rs). heap st' x = heap st x" by simp_all
  from tree [OF a] Cons.IH [OF b] show ?case by (simp cong: option.case_cong)
qed

lemma tree_frame:
  "(\<forall>x \<in> set (refsOf f st r). heap st' x = heap st x)
     \<Longrightarrow> readTree f st' r = readTree f st r \<and> refsOf f st' r = refsOf f st r"
proof (induction f arbitrary: r)
  case 0
  show ?case by simp
next
  case (Suc f)
  from Suc.prems have same: "heap st' r = heap st r" by simp
  show ?case
  proof (cases "heap st r")
    case None
    with same show ?thesis by simp
  next
    case (Some ob)
    with Suc.prems have "\<forall>x \<in> set (refsOfForest f st (o_children ob)). heap st' x = heap st x"
      by simp
    from forest_frame_from_tree [OF Suc.IH this] same Some show ?thesis
      by (simp cong: option.case_cong)
  qed
qed

lemma forest_frame:
  "(\<forall>x \<in> set (refsOfForest f st rs). heap st' x = heap st x)
     \<Longrightarrow> readForest f st' rs = readForest f st rs \<and> refsOfForest f st' rs = refsOfForest f st rs"
  using forest_frame_from_tree tree_frame by blast

lemma readForest_length: "readForest f st rs = Some ts \<Longrightarrow> length ts = length rs"
  by (induction rs arbitrary: ts) (auto split: option.splits)

lemma readTree_Suc:
  "readTree (Suc f) st r = Some t \<longleftrightarrow>
     (\<exists>ob ts. heap st r = Some ob \<and> readForest f st (o_children ob) = Some ts
        \<and> t = Node (o_id ob) (o_value ob) (o_startAngle ob) (o_angleRange ob) None None None
                 (o_isGap ob) ts)"
  by (auto split: option.splits)

lemma readTree_fuel_pos: "readTree f st r = Some t \<Longrightarrow> 0 < f"
  by (cases f) simp_all


lemma heap_writeObj: "heap (writeObj x ob st) y = (if y = x then Some ob else heap st y)"
  by (simp add: writeObj_def)

lemma nextRef_writeObj: "nextRef (writeObj x ob st) = nextRef st"
  by (simp add: writeObj_def)

lemma refsOf_root: "readTree f st r = Some t \<Longrightarrow> r \<in> set (refsOf f st r)"
  by (cases f) simp_all

lemma write_angles_read:
  assumes rd: "readTree f st c = Some t" and dist: "distinct (refsOf f st c)"
    and cob: "heap st c = Some cob"
  shows "readTree f (writeObj c (cob\<lparr>o_startAngle := x, o_angleRange := y\<rparr>) st) c
           = Some (setAngles x y t)
         \<and> refsOf f (writeObj c (cob\<lparr>o_startAngle := x, o_angleRange := y\<rparr>) st) c = refsOf f st c"
proof -
  let ?st1 = "writeObj c (cob\<lparr>o_startAngle := x, o_angleRange := y\<rparr>) st"
  from rd obtain f' where f: "f = Suc f'" by (cases f) simp_all
  from rd cob obtain ts where ts: "readForest f' st (o_children cob) = Some ts"
    and t: "t = Node (o_id cob) (o_value cob) (o_startAngle cob) (o_angleRange cob) None None None
                 (o_isGap cob) ts"
    unfolding f readTree_Suc by auto
  from dist cob have notin: "c \<notin> set (refsOfForest f' st (o_children cob))"
    unfolding f by simp
  then have "\<forall>z \<in> set (refsOfForest f' st (o_children cob)). heap ?st1 z = heap st z"
    by (auto simp add: heap_writeObj)
  from forest_frame [OF this] ts
  have "readForest f' ?st1 (o_children cob) = Some ts"
    and "refsOfForest f' ?st1 (o_children cob) = refsOfForest f' st (o_children cob)" by simp_all
  then show ?thesis
    unfolding f by (simp add: heap_writeObj cob t)
qed

lemma insertLoopS_refines:
  assumes node: "nodeRefines f opts g"
  shows "readForest f st cs = Some ts \<Longrightarrow> properForest f st cs
     \<Longrightarrow> p \<notin> set (refsOfForest f st cs) \<Longrightarrow> p < nextRef st
     \<Longrightarrow> heap st p = Some pob \<Longrightarrow> o_id pob = nid pt
     \<Longrightarrow> \<exists>out st'. insertLoopS f opts g p ca cc cs cur idx gi st = Some (out, st')
           \<and> readForest f st' out = Some (insertLoop opts g pt ca cc ts cur idx gi)
           \<and> properForest f st' out
           \<and> nextRef st \<le> nextRef st'
           \<and> (\<forall>x. x < nextRef st \<and> x \<notin> set (refsOfForest f st cs) \<longrightarrow> heap st' x = heap st x)
           \<and> set (refsOfForest f st' out) \<subseteq> set (refsOfForest f st cs) \<union> {nextRef st..<nextRef st'}"
proof (induction cs arbitrary: ts cur idx gi st)
  case Nil
  then show ?case by (simp add: properForest_def)
next
  case (Cons c rest)
  let ?n = "nextRef st"
  from Cons.prems(1) obtain t ts' where rt: "readTree f st c = Some t"
    and rrest: "readForest f st rest = Some ts'" and ts: "ts = t # ts'"
    by (auto split: option.splits)
  from rt obtain cob where cob: "heap st c = Some cob"
    by (cases f) (auto split: option.splits)
  from readTree_fuel_pos [OF rt] have fpos: "0 < f" .
  let ?Rc = "set (refsOf f st c)" and ?Rr = "set (refsOfForest f st rest)"
  from Cons.prems(2) have dc: "distinct (refsOf f st c)" and dr: "distinct (refsOfForest f st rest)"
    and disj: "?Rc \<inter> ?Rr = {}" and bc: "\<forall>x \<in> ?Rc. x < ?n" and br: "\<forall>x \<in> ?Rr. x < ?n"
    by (auto simp add: properForest_def)
  have cin: "c \<in> ?Rc" using refsOf_root [OF rt] .
  from Cons.prems(3) have pc: "p \<notin> ?Rc" and pr: "p \<notin> ?Rr" by simp_all
  \<comment> \<open>the two assignments to the child\<close>
  define st1 where "st1 = writeObj c (cob\<lparr>o_startAngle := Some cur, o_angleRange := Some ca\<rparr>) st"
  have h1: "heap st1 z = (if z = c then Some (cob\<lparr>o_startAngle := Some cur, o_angleRange := Some ca\<rparr>)
                          else heap st z)" for z
    by (simp add: st1_def heap_writeObj)
  have n1: "nextRef st1 = ?n" by (simp add: st1_def nextRef_writeObj)
  from write_angles_read [OF rt dc cob, where x = "Some cur" and y = "Some ca"]
  have rt1: "readTree f st1 c = Some (setAngles (Some cur) (Some ca) t)"
    and rc1: "refsOf f st1 c = refsOf f st c" by (simp_all add: st1_def)
  have "\<forall>z \<in> ?Rr. heap st1 z = heap st z" using disj cin by (auto simp add: h1)
  from forest_frame [OF this] rrest
  have rrest1: "readForest f st1 rest = Some ts'" and rr1: "refsOfForest f st1 rest = refsOfForest f st rest"
    by simp_all
  have pt1: "properTree f st1 c" using dc bc by (simp add: properTree_def rc1 n1)
  \<comment> \<open>the recursive call\<close>
  from node [unfolded nodeRefines_def, rule_format, of st1 c _ ca cur] rt1 pt1
  obtain st2 where run2: "processNodeS f opts g c ca cur st1 = Some (c, st2)"
    and rt2: "readTree f st2 c = Some (processNode opts g (setAngles (Some cur) (Some ca) t) ca cur)"
    and pt2: "properTree f st2 c" and n2: "?n \<le> nextRef st2"
    and fr2: "\<forall>x. x < ?n \<and> x \<notin> ?Rc \<longrightarrow> heap st2 x = heap st1 x"
    and sub2: "set (refsOf f st2 c) \<subseteq> ?Rc \<union> {?n..<nextRef st2}"
    by (auto simp add: rc1 n1)
  have keep2: "heap st2 x = heap st x" if "x < ?n" "x \<notin> ?Rc" for x
    using that fr2 cin by (auto simp add: h1)
  have "\<forall>z \<in> ?Rr. heap st2 z = heap st z" using disj br keep2 by auto
  from forest_frame [OF this] rrest
  have rrest2: "readForest f st2 rest = Some ts'" and rr2: "refsOfForest f st2 rest = refsOfForest f st rest"
    by simp_all
  have p2: "heap st2 p = Some pob" using keep2 [OF Cons.prems(4) pc] Cons.prems(5) by simp
  have b2: "\<forall>x \<in> set (refsOf f st2 c). x < nextRef st2" using pt2 by (simp add: properTree_def)
  have d2: "distinct (refsOf f st2 c)" using pt2 by (simp add: properTree_def)
  have away2: "set (refsOf f st2 c) \<inter> ?Rr = {}" using sub2 disj br by fastforce
  show ?case
  proof (cases "idx + 1 < cc")
    case False
    have pf2: "properForest f st2 rest"
      using dr br n2 by (auto simp add: properForest_def rr2)
    from Cons.IH [OF rrest2 pf2 _ _ p2 Cons.prems(6), of "cur + ca" "idx + 1" gi] pr Cons.prems(4) n2
    obtain out' st4 where
      run4: "insertLoopS f opts g p ca cc rest (cur + ca) (idx + 1) gi st2 = Some (out', st4)"
      and r4: "readForest f st4 out' = Some (insertLoop opts g pt ca cc ts' (cur + ca) (idx + 1) gi)"
      and pf4: "properForest f st4 out'" and n4: "nextRef st2 \<le> nextRef st4"
      and fr4: "\<forall>x. x < nextRef st2 \<and> x \<notin> ?Rr \<longrightarrow> heap st4 x = heap st2 x"
      and sub4: "set (refsOfForest f st4 out') \<subseteq> ?Rr \<union> {nextRef st2..<nextRef st4}"
      by (auto simp add: rr2)
    have "\<forall>z \<in> set (refsOf f st2 c). heap st4 z = heap st2 z" using fr4 b2 away2 by auto
    from tree_frame [OF this] rt2
    have rt4: "readTree f st4 c = Some (processNode opts g (setAngles (Some cur) (Some ca) t) ca cur)"
      and rc4: "refsOf f st4 c = refsOf f st2 c" by simp_all
    have run: "insertLoopS f opts g p ca cc (c # rest) cur idx gi st = Some (c # out', st4)"
      using False cob run2 run4 by (simp add: Let_def st1_def)
    have rd: "readForest f st4 (c # out') = Some (insertLoop opts g pt ca cc ts cur idx gi)"
      using False rt4 r4 by (simp add: ts Let_def)
    have refs: "refsOfForest f st4 (c # out') = refsOf f st2 c @ refsOfForest f st4 out'"
      by (simp add: rc4)
    have cross: "set (refsOf f st2 c) \<inter> set (refsOfForest f st4 out') = {}"
      using sub4 away2 b2 by fastforce
    have pf: "properForest f st4 (c # out')"
      using d2 pf4 cross b2 n4 by (auto simp add: properForest_def rc4)
    have fr: "\<forall>x. x < ?n \<and> x \<notin> set (refsOfForest f st (c # rest)) \<longrightarrow> heap st4 x = heap st x"
      using fr4 keep2 n2 by auto
    have sub: "set (refsOfForest f st4 (c # out'))
                 \<subseteq> set (refsOfForest f st (c # rest)) \<union> {?n..<nextRef st4}"
      using sub2 sub4 n2 n4 by (auto simp add: rc4)
    from run rd pf n2 n4 fr sub show ?thesis by (intro exI conjI) (assumption | simp)+
  next
    case True
    \<comment> \<open>the gap node\<close>
    define gob where "gob = \<lparr>o_id = Some (''gap_''
                 @ (case o_id pob of None \<Rightarrow> ''root'' | Some i \<Rightarrow> if i = [] then ''root'' else i)
                 @ ''_'' @ decimal gi), o_value = Some 0, o_startAngle = Some (cur + ca),
                              o_angleRange = Some g, o_isGap = True, o_children = []\<rparr>"
    define st3 where "st3 = snd (allocObj gob st2)"
    let ?gr = "nextRef st2"
    have gap: "createGapNodeS (cur + ca) g p gi st2 = Some (?gr, st3)"
      by (simp add: createGapNodeS_def p2 Let_def gob_def st3_def allocObj_def)
    have h3: "heap st3 z = (if z = ?gr then Some gob else heap st2 z)" for z
      by (simp add: st3_def allocObj_def)
    have n3: "nextRef st3 = ?gr + 1" by (simp add: st3_def allocObj_def)
    have rg3: "readTree f st3 ?gr = Some (createGapNode (cur + ca) g pt gi)"
      using fpos by (cases f) (simp_all add: h3 gob_def createGapNode_def Let_def Cons.prems(6))
    have refg3: "refsOf f st3 ?gr = [?gr]"
      using fpos by (cases f) (simp_all add: h3 gob_def)
    have "\<forall>z \<in> ?Rr. heap st3 z = heap st z" using disj br keep2 n2 by (auto simp add: h3)
    from forest_frame [OF this] rrest
    have rrest3: "readForest f st3 rest = Some ts'" and rr3: "refsOfForest f st3 rest = refsOfForest f st rest"
      by simp_all
    have p3: "heap st3 p = Some pob" using p2 Cons.prems(4) n2 by (simp add: h3)
    have pf3: "properForest f st3 rest"
      using dr br n2 by (auto simp add: properForest_def rr3 n3)
    from Cons.IH [OF rrest3 pf3 _ _ p3 Cons.prems(6), of "cur + ca + g" "idx + 1" "gi + 1"]
      pr Cons.prems(4) n2
    obtain out' st4 where
      run4: "insertLoopS f opts g p ca cc rest (cur + ca + g) (idx + 1) (gi + 1) st3 = Some (out', st4)"
      and r4: "readForest f st4 out' = Some (insertLoop opts g pt ca cc ts' (cur + ca + g) (idx + 1) (gi + 1))"
      and pf4: "properForest f st4 out'" and n4: "nextRef st3 \<le> nextRef st4"
      and fr4: "\<forall>x. x < nextRef st3 \<and> x \<notin> ?Rr \<longrightarrow> heap st4 x = heap st3 x"
      and sub4: "set (refsOfForest f st4 out') \<subseteq> ?Rr \<union> {nextRef st3..<nextRef st4}"
      by (auto simp add: rr3 n3)
    have keep4: "heap st4 x = heap st2 x" if "x < nextRef st2" "x \<notin> ?Rr" for x
    proof -
      from that fr4 have "heap st4 x = heap st3 x" by (simp add: n3)
      also from that(1) have "\<dots> = heap st2 x" by (simp add: h3)
      finally show ?thesis .
    qed
    have "\<forall>z \<in> set (refsOf f st2 c). heap st4 z = heap st2 z"
    proof
      fix z assume z: "z \<in> set (refsOf f st2 c)"
      with b2 have "z < nextRef st2" by simp
      moreover from z away2 have "z \<notin> ?Rr" by auto
      ultimately show "heap st4 z = heap st2 z" by (rule keep4)
    qed
    from tree_frame [OF this] rt2
    have rt4: "readTree f st4 c = Some (processNode opts g (setAngles (Some cur) (Some ca) t) ca cur)"
      and rc4: "refsOf f st4 c = refsOf f st2 c" by simp_all
    have gnew: "?gr \<notin> ?Rr" using br n2 by auto
    have "\<forall>z \<in> set (refsOf f st3 ?gr). heap st4 z = heap st3 z"
      using fr4 gnew by (simp add: refg3 n3)
    from tree_frame [OF this] rg3 refg3
    have rg4: "readTree f st4 ?gr = Some (createGapNode (cur + ca) g pt gi)"
      and refg4: "refsOf f st4 ?gr = [?gr]" by simp_all
    have run: "insertLoopS f opts g p ca cc (c # rest) cur idx gi st = Some (c # ?gr # out', st4)"
      using True cob run2 gap run4 by (simp add: Let_def st1_def)
    have rd: "readForest f st4 (c # ?gr # out') = Some (insertLoop opts g pt ca cc ts cur idx gi)"
      using True rt4 rg4 r4 by (simp add: ts Let_def)
    have refs: "refsOfForest f st4 (c # ?gr # out') = refsOf f st2 c @ ?gr # refsOfForest f st4 out'"
      by (simp add: rc4 refg4)
    have cross: "set (refsOf f st2 c) \<inter> set (refsOfForest f st4 out') = {}"
      using sub4 away2 b2 by (fastforce simp add: n3)
    have g1: "?gr \<notin> set (refsOf f st2 c)" using b2 by auto
    have g2: "?gr \<notin> set (refsOfForest f st4 out')" using sub4 gnew by (auto simp add: n3)
    have pf: "properForest f st4 (c # ?gr # out')"
      using d2 pf4 cross b2 n4 g1 g2 by (auto simp add: properForest_def rc4 refg4 n3)
    have fr: "\<forall>x. x < ?n \<and> x \<notin> set (refsOfForest f st (c # rest)) \<longrightarrow> heap st4 x = heap st x"
    proof (intro allI impI)
      fix x assume x: "x < ?n \<and> x \<notin> set (refsOfForest f st (c # rest))"
      then have "x < nextRef st2" "x \<notin> ?Rr" "x \<notin> ?Rc" using n2 by simp_all
      with x keep4 [of x] keep2 [of x] show "heap st4 x = heap st x" by simp
    qed
    have sub: "set (refsOfForest f st4 (c # ?gr # out'))
                 \<subseteq> set (refsOfForest f st (c # rest)) \<union> {?n..<nextRef st4}"
      using sub2 sub4 n2 n4 by (auto simp add: rc4 refg4 n3)
    have nn: "?n \<le> nextRef st4" using n2 n4 by (simp add: n3)
    from run rd pf nn fr sub show ?thesis by (intro exI conjI) (assumption | simp)+
  qed
qed


lemma nodeRefines_all: "nodeRefines f opts g"
proof (induction f)
  case 0
  show ?case by (simp add: nodeRefines_def)
next
  case (Suc f)
  show ?case
    unfolding nodeRefines_def
  proof (intro allI impI)
    fix st r t pa ps
    assume asm: "readTree (Suc f) st r = Some t \<and> properTree (Suc f) st r"
    let ?n = "nextRef st"
    from asm obtain ob ts where ob: "heap st r = Some ob"
      and rts: "readForest f st (o_children ob) = Some ts"
      and t: "t = Node (o_id ob) (o_value ob) (o_startAngle ob) (o_angleRange ob) None None None
                   (o_isGap ob) ts"
      unfolding readTree_Suc by blast
    let ?F = "set (refsOfForest f st (o_children ob))"
    have refs: "refsOf (Suc f) st r = r # refsOfForest f st (o_children ob)"
      by (simp add: ob)
    from asm have "distinct (r # refsOfForest f st (o_children ob))"
      and "\<forall>x \<in> set (r # refsOfForest f st (o_children ob)). x < ?n"
      unfolding properTree_def refs by blast+
    then have rnot: "r \<notin> ?F" and rlow: "r < ?n"
      and pf: "properForest f st (o_children ob)"
      by (simp_all add: properForest_def)
    have len: "length ts = length (o_children ob)" using readForest_length [OF rts] .
    show "\<exists>st'. processNodeS (Suc f) opts g r pa ps st = Some (r, st')
           \<and> readTree (Suc f) st' r = Some (processNode opts g t pa ps)
           \<and> properTree (Suc f) st' r
           \<and> nextRef st \<le> nextRef st'
           \<and> (\<forall>x. x < nextRef st \<and> x \<notin> set (refsOf (Suc f) st r) \<longrightarrow> heap st' x = heap st x)
           \<and> set (refsOf (Suc f) st' r) \<subseteq> set (refsOf (Suc f) st r) \<union> {nextRef st..<nextRef st'}"
    proof (cases "length (o_children ob) < gm_minChildrenForGap opts")
      case True
      have run: "processNodeS (Suc f) opts g r pa ps st = Some (r, st)"
        using True ob by simp
      have val: "processNode opts g t pa ps = t"
        using True len by (subst processNode.simps) (simp add: t)
      from run val asm show ?thesis by auto
    next
      case False
      define cc where "cc = length (o_children ob)"
      define ca where "ca = (pa - g * real cc) / real cc"
      have idt: "o_id ob = nid t" by (simp add: t)
      from insertLoopS_refines [OF Suc rts pf rnot rlow ob idt, of ca cc ps 0 0]
      obtain out st1 where
        loop: "insertLoopS f opts g r ca cc (o_children ob) ps 0 0 st = Some (out, st1)"
        and rout: "readForest f st1 out = Some (insertLoop opts g t ca cc ts ps 0 0)"
        and pf1: "properForest f st1 out" and n1: "?n \<le> nextRef st1"
        and fr1: "\<forall>x. x < ?n \<and> x \<notin> ?F \<longrightarrow> heap st1 x = heap st x"
        and sub1: "set (refsOfForest f st1 out) \<subseteq> ?F \<union> {?n..<nextRef st1}"
        by blast
      have cur: "heap st1 r = Some ob" using fr1 rlow rnot ob by simp
      define st2 where "st2 = writeObj r (ob\<lparr>o_children := out\<rparr>) st1"
      have h2: "heap st2 z = (if z = r then Some (ob\<lparr>o_children := out\<rparr>) else heap st1 z)" for z
        by (simp add: st2_def heap_writeObj)
      have n2: "nextRef st2 = nextRef st1" by (simp add: st2_def nextRef_writeObj)
      have rout1: "r \<notin> set (refsOfForest f st1 out)" using sub1 rnot rlow by auto
      then have "\<forall>z \<in> set (refsOfForest f st1 out). heap st2 z = heap st1 z"
        by (auto simp add: h2)
      from forest_frame [OF this] rout
      have rout2: "readForest f st2 out = Some (insertLoop opts g t ca cc ts ps 0 0)"
        and refs2: "refsOfForest f st2 out = refsOfForest f st1 out" by simp_all
      have run: "processNodeS (Suc f) opts g r pa ps st = Some (r, st2)"
        using False ob loop cur by (simp add: Let_def cc_def ca_def st2_def)
      have val: "processNode opts g t pa ps
                   = Node (o_id ob) (o_value ob) (o_startAngle ob) (o_angleRange ob) None None None
                       (o_isGap ob) (insertLoop opts g t ca cc ts ps 0 0)"
        using False len by (subst processNode.simps) (simp add: t Let_def cc_def ca_def)
      have rd2: "readTree (Suc f) st2 r = Some (processNode opts g t pa ps)"
        by (simp add: h2 rout2 val)
      have r2: "refsOf (Suc f) st2 r = r # refsOfForest f st1 out"
        by (simp add: h2 refs2)
      have pt2: "properTree (Suc f) st2 r"
        unfolding properTree_def r2 n2
        using pf1 rout1 rlow n1 by (auto simp add: properForest_def)
      have fr2: "\<forall>x. x < ?n \<and> x \<notin> set (refsOf (Suc f) st r) \<longrightarrow> heap st2 x = heap st x"
        unfolding refs using fr1 by (auto simp add: h2)
      have sub2: "set (refsOf (Suc f) st2 r) \<subseteq> set (refsOf (Suc f) st r) \<union> {?n..<nextRef st2}"
        unfolding refs r2 n2 using sub1 by auto
      from run rd2 pt2 n1 fr2 sub2 show ?thesis
        by (intro exI conjI) (assumption | simp add: n2)+
    qed
  qed
qed

lemma processRootsS_refines:
  "readForest f st data = Some ts \<Longrightarrow> properForest f st data
     \<Longrightarrow> \<exists>st'. processRootsS f opts g data st = Some (data, st')
           \<and> readForest f st' data = Some (map (\<lambda>node. processNode opts g node (2 * pi) 0) ts)
           \<and> properForest f st' data
           \<and> nextRef st \<le> nextRef st'
           \<and> (\<forall>x. x < nextRef st \<and> x \<notin> set (refsOfForest f st data) \<longrightarrow> heap st' x = heap st x)
           \<and> set (refsOfForest f st' data) \<subseteq> set (refsOfForest f st data) \<union> {nextRef st..<nextRef st'}"
proof (induction data arbitrary: ts st)
  case Nil
  then show ?case by (simp add: properForest_def)
next
  case (Cons r rest)
  let ?n = "nextRef st"
  from Cons.prems(1) obtain t ts' where rt: "readTree f st r = Some t"
    and rrest: "readForest f st rest = Some ts'" and ts: "ts = t # ts'"
    by (auto split: option.splits)
  let ?Rc = "set (refsOf f st r)" and ?Rr = "set (refsOfForest f st rest)"
  from Cons.prems(2) have dc: "distinct (refsOf f st r)" and dr: "distinct (refsOfForest f st rest)"
    and disj: "?Rc \<inter> ?Rr = {}" and bc: "\<forall>x \<in> ?Rc. x < ?n" and br: "\<forall>x \<in> ?Rr. x < ?n"
    by (auto simp add: properForest_def)
  have pt0: "properTree f st r" using dc bc by (simp add: properTree_def)
  from nodeRefines_all [of f opts g, unfolded nodeRefines_def, rule_format, of st r t "2 * pi" 0] rt pt0
  obtain st2 where run2: "processNodeS f opts g r (2 * pi) 0 st = Some (r, st2)"
    and rt2: "readTree f st2 r = Some (processNode opts g t (2 * pi) 0)"
    and pt2: "properTree f st2 r" and n2: "?n \<le> nextRef st2"
    and fr2: "\<forall>x. x < ?n \<and> x \<notin> ?Rc \<longrightarrow> heap st2 x = heap st x"
    and sub2: "set (refsOf f st2 r) \<subseteq> ?Rc \<union> {?n..<nextRef st2}"
    by auto
  have "\<forall>z \<in> ?Rr. heap st2 z = heap st z" using disj br fr2 by auto
  from forest_frame [OF this] rrest
  have rrest2: "readForest f st2 rest = Some ts'" and rr2: "refsOfForest f st2 rest = refsOfForest f st rest"
    by simp_all
  have b2: "\<forall>x \<in> set (refsOf f st2 r). x < nextRef st2" using pt2 by (simp add: properTree_def)
  have d2: "distinct (refsOf f st2 r)" using pt2 by (simp add: properTree_def)
  have away2: "set (refsOf f st2 r) \<inter> ?Rr = {}" using sub2 disj br by fastforce
  have pf2: "properForest f st2 rest"
    using dr br n2 by (auto simp add: properForest_def rr2)
  from Cons.IH [OF rrest2 pf2]
  obtain st4 where
    run4: "processRootsS f opts g rest st2 = Some (rest, st4)"
    and r4: "readForest f st4 rest = Some (map (\<lambda>node. processNode opts g node (2 * pi) 0) ts')"
    and pf4: "properForest f st4 rest" and n4: "nextRef st2 \<le> nextRef st4"
    and fr4: "\<forall>x. x < nextRef st2 \<and> x \<notin> ?Rr \<longrightarrow> heap st4 x = heap st2 x"
    and sub4: "set (refsOfForest f st4 rest) \<subseteq> ?Rr \<union> {nextRef st2..<nextRef st4}"
    by (auto simp add: rr2)
  have "\<forall>z \<in> set (refsOf f st2 r). heap st4 z = heap st2 z" using fr4 b2 away2 by auto
  from tree_frame [OF this] rt2
  have rt4: "readTree f st4 r = Some (processNode opts g t (2 * pi) 0)"
    and rc4: "refsOf f st4 r = refsOf f st2 r" by simp_all
  have run: "processRootsS f opts g (r # rest) st = Some (r # rest, st4)"
    using run2 run4 by simp
  have rd: "readForest f st4 (r # rest) = Some (map (\<lambda>node. processNode opts g node (2 * pi) 0) ts)"
    using rt4 r4 by (simp add: ts)
  have cross: "set (refsOf f st2 r) \<inter> set (refsOfForest f st4 rest) = {}"
    using sub4 away2 b2 by fastforce
  have pf: "properForest f st4 (r # rest)"
    using d2 pf4 cross b2 n4 by (auto simp add: properForest_def rc4)
  have fr: "\<forall>x. x < ?n \<and> x \<notin> set (refsOfForest f st (r # rest)) \<longrightarrow> heap st4 x = heap st x"
    using fr4 fr2 n2 by auto
  have sub: "set (refsOfForest f st4 (r # rest))
               \<subseteq> set (refsOfForest f st (r # rest)) \<union> {?n..<nextRef st4}"
    using sub2 sub4 n2 n4 by (auto simp add: rc4)
  have nn: "?n \<le> nextRef st4" using n2 n4 by simp
  from run rd pf nn fr sub show ?case by (intro exI conjI) (assumption | simp)+
qed

lemma insertGapsS_refines_insertGaps:
  assumes "readForest f st data = Some ts" and "properForest f st data"
  shows "\<exists>st'. insertGapsS f opts data st = Some (data, st')
           \<and> readForest f st' data = Some (insertGaps opts ts)"
proof (cases "\<not> gm_enableGaps opts \<or> gm_gapAngle opts \<le> 0")
  case True
  with assms(1) show ?thesis by (simp add: insertGapsS_def insertGaps_def)
next
  case False
  from processRootsS_refines [OF assms, of opts "(gm_gapAngle opts * pi) / 180"] False
  show ?thesis by (auto simp add: insertGapsS_def insertGaps_def Let_def)
qed


section \<open>What the sibling loops conserve\<close>

lemma sumAngleRange_siblings_aux:
  "foldl (\<lambda>sum node. add_opt sum (angleRange node)) (Some acc)
      (layoutSiblings opts tw av g dep rin rout n cs cur idx)
     = Some (acc + sum_list (map (\<lambda>c. (calculateNodeWeight c / tw) * av) cs))"
  by (induction cs arbitrary: acc cur idx)
     (simp_all add: Let_def createLayoutNode_fields add.assoc)

lemma shares_add_up:
  assumes "sum_list (map calculateNodeWeight cs) \<noteq> 0"
  shows "sum_list (map (\<lambda>c. (calculateNodeWeight c / sum_list (map calculateNodeWeight cs)) * av) cs) = av"
proof -
  have "sum_list (map (\<lambda>c. (calculateNodeWeight c / tw) * av) cs)
          = sum_list (map calculateNodeWeight cs) * (av / tw)" for tw
    by (induction cs) (simp_all add: algebra_simps)
  then show ?thesis using assms by simp
qed

text \<open>What the layout conserves: the children of a placed node add up to the available angle.\<close>

lemma children_add_up_to_available:
  assumes "children node \<noteq> []"
  shows "sumAngleRange (children (createLayoutNode opts node lay))
           = Some (l_angleRange lay - (opt_gapAngle opts * pi) / 180 * real (length (children node)))"
proof -
  from calculateTotalWeight_pos [OF assms]
  have "sum_list (map calculateNodeWeight (children node)) \<noteq> 0"
    by (simp add: calculateTotalWeight_sum)
  from shares_add_up [OF this] show ?thesis
    by (simp add: sumAngleRange_def children_createLayoutNode sumAngleRange_siblings_aux
        calculateTotalWeight_sum)
qed

lemma roots_add_up_to_available:
  assumes "nodes \<noteq> []"
  shows "sumAngleRange (layoutOf opts nodes)
           = Some (2 * pi - (opt_gapAngle opts * pi) / 180 * real (length nodes))"
proof -
  from calculateTotalWeight_pos [OF assms]
  have "sum_list (map calculateNodeWeight nodes) \<noteq> 0"
    by (simp add: calculateTotalWeight_sum)
  from shares_add_up [OF this] assms show ?thesis
    by (simp add: sumAngleRange_def layoutOf_unfold sumAngleRange_siblings_aux
        calculateTotalWeight_sum)
qed

lemma angleRange_processNode: "angleRange (processNode opts g node par ps) = angleRange node"
  by (simp add: processNode.simps [of opts g node par ps] Let_def setChildren_sel)

lemma sumAngleRange_insertLoop_aux:
  "idx + length cs = cc \<Longrightarrow>
   foldl (\<lambda>sum node. add_opt sum (angleRange node)) (Some acc)
      (insertLoop opts g parent ca cc cs cur idx gi)
     = Some (acc + real (length cs) * ca + real (length cs - 1) * g)"
proof (induction cs arbitrary: acc cur idx gi)
  case Nil
  show ?case by simp
next
  case (Cons c rest)
  show ?case
  proof (cases rest)
    case Nil
    with Cons.prems show ?thesis
      by (simp add: Let_def angleRange_processNode setAngles_sel)
  next
    case (Cons c' rest')
    then have more: "0 < length rest" by simp
    with Cons.prems have lt: "idx + 1 < cc" and nxt: "(idx + 1) + length rest = cc" by auto
    have "foldl (\<lambda>sum node. add_opt sum (angleRange node)) (Some acc)
            (insertLoop opts g parent ca cc (c # rest) cur idx gi)
          = foldl (\<lambda>sum node. add_opt sum (angleRange node)) (Some (acc + ca + g))
              (insertLoop opts g parent ca cc rest (cur + ca + g) (idx + 1) (gi + 1))"
      using lt by (simp add: Let_def angleRange_processNode setAngles_sel createGapNode_def)
    also have "\<dots> = Some (acc + ca + g + real (length rest) * ca + real (length rest - 1) * g)"
      by (rule Cons.IH [OF nxt])
    also have "\<dots> = Some (acc + real (length (c # rest)) * ca + real (length (c # rest) - 1) * g)"
      by (simp add: Cons algebra_simps)
    finally show ?thesis .
  qed
qed

text \<open>What gap insertion conserves: children and gap nodes add up to the range handed in, less one gap.\<close>

lemma gaps_add_up_one_short:
  assumes "gm_minChildrenForGap opts \<le> length (children node)" and "children node \<noteq> []"
  shows "sumAngleRange (children (processNode opts g node par ps)) = Some (par - g)"
proof -
  define n where "n = length (children node)"
  have pos: "0 < n" using assms(2) by (simp add: n_def)
  then have "real n * ((par - g * real n) / real n) = par - g * real n" by simp
  moreover have "real (n - 1) = real n - 1" using pos by (simp add: of_nat_diff)
  ultimately have "real n * ((par - g * real n) / real n) + real (n - 1) * g = par - g"
    by (simp add: algebra_simps)
  then show ?thesis
    using assms(1)
    by (simp add: processNode.simps [of opts g node par ps] Let_def setChildren_sel sumAngleRange_def
        sumAngleRange_insertLoop_aux n_def [symmetric])
qed


section \<open>Sectors are sized by weight\<close>

lemma layout_twoLevels_gapless:
  "layoutOf gaplessOptions twoLevels =
     [Node (Some ''root'') (Some 1) (Some 0) (Some (2 * pi)) (Some 0) (Some (3 / 20)) (Some (9 / 10))
        False
        [Node (Some ''A'') (Some 1) (Some 0) (Some (12 * pi / 11)) (Some 1) (Some (12 / 55))
           (Some (63 / 220)) False
           [Node (Some ''A1'') (Some 1) (Some 0) (Some (6 * pi / 11)) (Some 2) (Some (279 / 1210))
              (Some (573 / 2420)) False [],
            Node (Some ''A2'') (Some 1) (Some (6 * pi / 11)) (Some (6 * pi / 11)) (Some 2)
              (Some (279 / 1210)) (Some (573 / 2420)) False []],
         Node (Some ''B'') (Some 1) (Some (12 * pi / 11)) (Some (10 * pi / 11)) (Some 1)
           (Some (12 / 55)) (Some (63 / 220)) False []]]"
  by (simp add: layout_eval gaplessOptions_def twoLevels_def)

lemma layout_skewedPair:
  "layoutOf defaultOptions skewedPair =
     [Node (Some ''root'') (Some 1) (Some 0) (Some (119 * pi / 60)) (Some 0) (Some (3 / 20)) (Some (9 / 10))
        False
        [Node (Some ''small'') (Some 1) (Some 0) (Some (117 * pi / 50060)) (Some 1) (Some (12 / 55))
           (Some (63 / 220)) False
           [Node (Some ''x'') (Some 1) (Some 0) (Some (- (931 * pi / 60072))) (Some 2)
              (Some (279 / 1210)) (Some (573 / 2420)) False [],
            Node (Some ''y'') (Some 1) (Some (117 * pi / 100120)) (Some (- (931 * pi / 60072)))
              (Some 2) (Some (279 / 1210)) (Some (573 / 2420)) False []],
         Node (Some ''big'') (Some 1000) (Some (1427 * pi / 75090)) (Some (4875 * pi / 2503)) (Some 1)
           (Some (12 / 55)) (Some (63 / 220)) False []]]"
  by (simp add: layout_eval defaultOptions_def skewedPair_def)






section \<open>The sign of the angle a sibling receives\<close>

lemma share_zero:
  assumes "0 < w" and "0 < tw"
  shows "(w / tw) * av = 0 \<longleftrightarrow> (av::real) = 0"
  using assms by simp

lemma share_nonpos:
  assumes "0 < w" and "0 < tw" and "av \<le> 0"
  shows "(w / tw) * av \<le> (0::real)"
proof -
  have "0 \<le> w / tw" using assms by simp
  then show ?thesis using assms(3) by (rule mult_nonneg_nonpos)
qed

lemma gap_total_nonneg:
  assumes "g \<le> 0"
  shows "0 \<le> - ((g * pi) / 180 * real n)"
proof -
  have "(g * pi) / 180 \<le> 0" using assms by (simp add: mult_nonpos_nonneg)
  then have "(g * pi) / 180 * real n \<le> 0" by (simp add: mult_nonpos_nonneg)
  then show ?thesis by simp
qed

lemma gaps_between_exceed:
  assumes "0 \<le> g" and "pr \<le> (g * pi) / 180 * (real n - 1)"
  shows "pr - (g * pi) / 180 * real n \<le> 0"
proof -
  have "0 \<le> (g * pi) / 180" using assms(1) by simp
  then have "(g * pi) / 180 * (real n - 1) \<le> (g * pi) / 180 * real n"
    by (intro mult_left_mono) simp_all
  with assms(2) show ?thesis by simp
qed

lemma rootLayout_positive:
  assumes "n \<in> set nodes" and "opt_gapAngle opts \<le> 0"
  shows "0 < l_angleRange (rootLayout opts nodes n st)"
proof -
  from assms(1) have "nodes \<noteq> []" by auto
  then have tw: "0 < calculateTotalWeight nodes" by (rule calculateTotalWeight_pos)
  have "0 < 2 * pi - (opt_gapAngle opts * pi) / 180 * real (length nodes)"
    using gap_total_nonneg [OF assms(2), of "length nodes"] pi_gt_zero by linarith
  with share_sign [OF calculateNodeWeight_pos tw] show ?thesis by (simp add: rootLayout_def)
qed

lemma childLayout_positive:
  assumes "cn \<in> set (children pn)" and "opt_gapAngle opts \<le> 0" and "0 < l_angleRange play"
  shows "0 < l_angleRange (childLayout opts pn play cn st)"
proof -
  from assms(1) have "children pn \<noteq> []" by auto
  then have tw: "0 < calculateTotalWeight (children pn)" by (rule calculateTotalWeight_pos)
  have "0 < l_angleRange play - (opt_gapAngle opts * pi) / 180 * real (length (children pn))"
    using gap_total_nonneg [OF assms(2), of "length (children pn)"] assms(3) by linarith
  with share_sign [OF calculateNodeWeight_pos tw] show ?thesis by (simp add: childLayout_fields)
qed

lemma root_angleRange:
  assumes r: "r \<in> set (layoutOf opts nodes)"
  shows "\<exists>a. angleRange r = Some a
       \<and> (0 \<le> opt_gapAngle opts
            \<and> 2 * pi \<le> (opt_gapAngle opts * pi) / 180 * (real (length nodes) - 1) \<longrightarrow> a \<le> 0)
       \<and> (opt_gapAngle opts \<le> 0 \<longrightarrow> 0 < a)
       \<and> (\<forall>r' \<in> set (layoutOf opts nodes). \<forall>a'. angleRange r' = Some a'
             \<longrightarrow> (0 < a \<longleftrightarrow> 0 < a') \<and> (a = 0 \<longleftrightarrow> a' = 0))"
proof -
  let ?av = "2 * pi - (opt_gapAngle opts * pi) / 180 * real (length nodes)"
  have shape: "\<exists>w. 0 < w \<and> angleRange q = Some ((w / calculateTotalWeight nodes) * ?av)"
    if "q \<in> set (layoutOf opts nodes)" for q
  proof -
    from root_of_layout [OF that] obtain n st where
      "q = createLayoutNode opts n (rootLayout opts nodes n st)" by blast
    then have "angleRange q = Some ((calculateNodeWeight n / calculateTotalWeight nodes) * ?av)"
      by (simp add: createLayoutNode_fields rootLayout_def)
    with calculateNodeWeight_pos [of n] show ?thesis by blast
  qed
  from root_of_layout [OF r] have "nodes \<noteq> []" by auto
  then have tw: "0 < calculateTotalWeight nodes" by (rule calculateTotalWeight_pos)
  from shape [OF r] obtain w where w: "0 < w"
    and a: "angleRange r = Some ((w / calculateTotalWeight nodes) * ?av)" by blast
  have low: "(w / calculateTotalWeight nodes) * ?av \<le> 0"
    if "0 \<le> opt_gapAngle opts" "2 * pi \<le> (opt_gapAngle opts * pi) / 180 * (real (length nodes) - 1)"
    using share_nonpos [OF w tw gaps_between_exceed [OF that]] .
  have pos: "0 < (w / calculateTotalWeight nodes) * ?av" if g: "opt_gapAngle opts \<le> 0"
  proof -
    have "0 < ?av" using gap_total_nonneg [OF g, of "length nodes"] pi_gt_zero by linarith
    with share_sign [OF w tw] show ?thesis by simp
  qed
  have sibs: "(0 < (w / calculateTotalWeight nodes) * ?av \<longleftrightarrow> 0 < a')
      \<and> ((w / calculateTotalWeight nodes) * ?av = 0 \<longleftrightarrow> a' = 0)"
    if "r' \<in> set (layoutOf opts nodes)" "angleRange r' = Some a'" for r' a'
  proof -
    from shape [OF that(1)] that(2) obtain w' where w': "0 < w'"
      and a': "a' = (w' / calculateTotalWeight nodes) * ?av" by auto
    show ?thesis
      unfolding a' using share_sign [OF w tw, of ?av] share_sign [OF w' tw, of ?av]
        share_zero [OF w tw, of ?av] share_zero [OF w' tw, of ?av] by blast
  qed
  from a low pos sibs show ?thesis by blast
qed

lemma pair_angleRange:
  assumes pc: "(p, c) \<in> set (forestPairs (layoutOf opts nodes))"
  shows "\<exists>pr a. angleRange p = Some pr \<and> angleRange c = Some a
       \<and> (0 \<le> opt_gapAngle opts
            \<and> pr \<le> (opt_gapAngle opts * pi) / 180 * (real (length (children p)) - 1) \<longrightarrow> a \<le> 0)
       \<and> (opt_gapAngle opts \<le> 0 \<longrightarrow> 0 < a)
       \<and> (\<forall>c' \<in> set (children p). \<forall>a'. angleRange c' = Some a'
             \<longrightarrow> (0 < a \<longleftrightarrow> 0 < a') \<and> (a = 0 \<longleftrightarrow> a' = 0))"
proof -
  from forest_pair_cases [OF pc] obtain n st where n: "n \<in> set nodes"
    and fam: "(p, c) \<in> set (familyPairs (createLayoutNode opts n (rootLayout opts nodes n st)))"
    by blast
  have root_ok: "opt_gapAngle opts \<le> 0 \<longrightarrow> 0 < l_angleRange (rootLayout opts nodes n st)"
    using rootLayout_positive [OF n] by blast
  from placed_pairs [where I = "\<lambda>lay. opt_gapAngle opts \<le> 0 \<longrightarrow> 0 < l_angleRange lay",
      OF root_ok _ fam]
  obtain pn play cn st' where
    inv: "opt_gapAngle opts \<le> 0 \<longrightarrow> 0 < l_angleRange play"
    and cn: "cn \<in> set (children pn)"
    and p: "p = createLayoutNode opts pn play"
    and c: "c = createLayoutNode opts cn (childLayout opts pn play cn st')"
    using childLayout_positive by blast
  from cn have "children pn \<noteq> []" by auto
  then have tw: "0 < calculateTotalWeight (children pn)" by (rule calculateTotalWeight_pos)
  let ?tw = "calculateTotalWeight (children pn)"
  let ?av = "l_angleRange play - (opt_gapAngle opts * pi) / 180 * real (length (children pn))"
  have pr: "angleRange p = Some (l_angleRange play)" by (simp add: p createLayoutNode_fields)
  have len: "length (children p) = length (children pn)" by (simp add: p length_children_placed)
  have a: "angleRange c = Some ((calculateNodeWeight cn / ?tw) * ?av)"
    by (simp add: c createLayoutNode_fields childLayout_fields)
  have w: "0 < calculateNodeWeight cn" by (rule calculateNodeWeight_pos)
  have low: "(calculateNodeWeight cn / ?tw) * ?av \<le> 0"
    if "0 \<le> opt_gapAngle opts"
      "l_angleRange play \<le> (opt_gapAngle opts * pi) / 180 * (real (length (children p)) - 1)"
    using share_nonpos [OF w tw gaps_between_exceed [OF that [unfolded len]]] .
  have pos: "0 < (calculateNodeWeight cn / ?tw) * ?av" if g: "opt_gapAngle opts \<le> 0"
  proof -
    have "0 < ?av" using gap_total_nonneg [OF g, of "length (children pn)"] inv g by linarith
    with share_sign [OF w tw] show ?thesis by simp
  qed
  have sibs: "(0 < (calculateNodeWeight cn / ?tw) * ?av \<longleftrightarrow> 0 < a')
      \<and> ((calculateNodeWeight cn / ?tw) * ?av = 0 \<longleftrightarrow> a' = 0)"
    if "c' \<in> set (children p)" "angleRange c' = Some a'" for c' a'
  proof -
    from child_of_placed [OF that(1) [unfolded p]] obtain cn' st'' where
      "c' = createLayoutNode opts cn' (childLayout opts pn play cn' st'')" by blast
    with that(2) have a': "a' = (calculateNodeWeight cn' / ?tw) * ?av"
      by (simp add: createLayoutNode_fields childLayout_fields)
    have w': "0 < calculateNodeWeight cn'" by (rule calculateNodeWeight_pos)
    show ?thesis
      unfolding a' using share_sign [OF w tw, of ?av] share_sign [OF w' tw, of ?av]
        share_zero [OF w tw, of ?av] share_zero [OF w' tw, of ?av] by blast
  qed
  from pr a low pos sibs show ?thesis by blast
qed

lemma length_optimizeLayout: "length (optimizeLayout sibs m) = length sibs"
  by (simp add: optimizeLayout_def)

lemma optimizeLayout_nth:
  assumes "i < length sibs"
  shows "optimizeLayout sibs m ! i
     = (case sibs ! i of Node k v s a d ri ro g cs \<Rightarrow>
          Node k v s (map_option (\<lambda>r. max r m) a) d ri ro g cs)"
  using assms
  by (cases "sibs ! i") (auto simp add: optimizeLayout_def max_def split: option.splits)

section \<open>Roots that gap insertion does not touch\<close>

lemma processRootsS_below_min:
  assumes "0 < fuel"
    and "\<forall>r \<in> set data. \<exists>small. heap st r = Some small
           \<and> length (o_children small) < gm_minChildrenForGap opts"
  shows "processRootsS fuel opts g data st = Some (data, st)"
proof -
  from assms(1) obtain f where f: "fuel = Suc f" by (cases fuel) auto
  from assms(2) show ?thesis unfolding f
    by (induction data) auto
qed

section \<open>The ring of a child under rounding\<close>













text \<open>
  Rounding to nearest can push the outer radius of a child at depth \<open>maxDepth\<close> past
  its parent's: on three decimals, a parent ring \<open>[0, 0.2]\<close> with \<open>maxDepth = 2\<close> gives
  the child at depth 2 the ring \<open>[0.134, 0.201]\<close>.
\<close>

lemma childRing_nearest3_exceeds:
  "childRing nearest3 2 0 (1 / 5) 2 = (67 / 500, 201 / 1000) \<and> (1::real) / 5 < 201 / 1000"
  by (simp add: childRing_def Let_def nearest3_def)

section \<open>What the search of the hit test returns\<close>

lemma findNodeByPolar_first_containing:
  assumes "\<forall>q \<in> set before. \<not> (angleInRange angle q \<and> radiusInRange r q)"
    and "angleInRange angle n" and "radiusInRange r n"
  shows "findNodeByPolar angle r (before @ n # after)
           = (case findNodeByPolar angle r (children n) of Some m \<Rightarrow> Some m | None \<Rightarrow> Some n)"
  using assms(1)
proof (induction before)
  case Nil
  obtain i v s a d ri ro g cs where n: "n = Node i v s a d ri ro g cs" by (cases n)
  show ?case using assms(2,3) unfolding n by (cases "cs = []") (simp_all split: option.splits)
next
  case (Cons q qs)
  obtain i v s a d ri ro g cs where q: "q = Node i v s a d ri ro g cs" by (cases q)
  from Cons.prems have miss: "\<not> (angleInRange angle q \<and> radiusInRange r q)" by simp
  from Cons.prems have "\<forall>q \<in> set qs. \<not> (angleInRange angle q \<and> radiusInRange r q)" by simp
  from Cons.IH [OF this] have "findNodeByPolar angle r (qs @ n # after)
           = (case findNodeByPolar angle r (children n) of Some m \<Rightarrow> Some m | None \<Rightarrow> Some n)" .
  moreover have "findNodeByPolar angle r ((q # qs) @ n # after) = findNodeByPolar angle r (qs @ n # after)"
    using miss unfolding q by auto
  ultimately show ?case by simp
qed

lemma findNodeByPolar_deepest:
  "findNodeByPolar angle r nodes = Some m
     \<Longrightarrow> \<forall>c \<in> set (children m). \<not> (angleInRange angle c \<and> radiusInRange r c)"
proof (induction angle r nodes rule: findNodeByPolar.induct)
  case (1 angle r)
  then show ?case by simp
next
  case (2 angle r i v s a d ri ro g cs rest)
  let ?n = "Node i v s a d ri ro g cs"
  show ?case
  proof (cases "angleInRange angle ?n \<and> radiusInRange r ?n")
    case False
    with "2.prems" have "findNodeByPolar angle r rest = Some m" by simp
    with "2.IH"(2) False show ?thesis by blast
  next
    case hit: True
    show ?thesis
    proof (cases "cs \<noteq> [] \<and> findNodeByPolar angle r cs \<noteq> None")
      case True
      then obtain c where c: "findNodeByPolar angle r cs = Some c" by auto
      with "2.prems" hit True have "m = c" by simp
      with "2.IH"(1) hit True c show ?thesis by blast
    next
      case False
      with "2.prems" hit have m: "m = ?n" by (auto split: option.splits if_splits)
      from False have "findNodeByPolar angle r cs = None" by (cases "cs = []") auto
      then show ?thesis by (simp add: m findNodeByPolar_None_iff)
    qed
  qed
qed

lemma createGapNode_no_ring: "innerRadius (createGapNode gs gr parent gi) = None"
  by (simp add: createGapNode_def Let_def)

lemma atan2_bounds: "- pi < atan2 y x \<and> atan2 y x \<le> pi"
proof -
  have a: "- (pi / 2) < arctan (y / x)" "arctan (y / x) < pi / 2"
    by (rule arctan_lbound, rule arctan_ubound)
  have neg: "arctan (y / x) \<le> 0" if "x < 0" "0 \<le> y"
  proof -
    from that have "y / x \<le> 0" by (simp add: divide_nonneg_neg)
    then show ?thesis by (simp add: arctan_le_zero_iff)
  qed
  have pos: "0 < arctan (y / x)" if "x < 0" "y < 0"
  proof -
    from that have "0 < y / x" by (simp add: divide_neg_neg)
    then show ?thesis by (simp add: zero_less_arctan_iff)
  qed
  show ?thesis
    using a neg pos pi_gt_zero by (auto simp add: atan2_def)
qed

text \<open>The angle \<open>atan2\<close> returns is the polar angle of the point.\<close>

lemma polar_of_atan2:
  assumes "x \<noteq> 0 \<or> y \<noteq> 0"
  shows "sqrt (x * x + y * y) * cos (atan2 y x) = x \<and> sqrt (x * x + y * y) * sin (atan2 y x) = y"
proof -
  consider (right) "0 < x" | (left) "x < 0" | (up) "x = 0" "0 < y" | (down) "x = 0" "y < 0"
    using assms by linarith
  then show ?thesis
  proof cases
    case right
    define t where "t = y / x"
    have y: "y = t * x" using right by (simp add: t_def)
    have "x * x + y * y = (x * x) * (1 + t\<^sup>2)" by (simp add: y power2_eq_square algebra_simps)
    then have d: "sqrt (x * x + y * y) = x * sqrt (1 + t\<^sup>2)"
      using right by (simp add: real_sqrt_mult)
    have pos: "0 < sqrt (1 + t\<^sup>2)" by (simp add: add_pos_nonneg)
    have th: "atan2 y x = arctan t" using right by (simp add: atan2_def t_def)
    show ?thesis unfolding d th using pos by (simp add: cos_arctan sin_arctan y)
  next
    case left
    define t where "t = y / x"
    have y: "y = t * x" using left by (simp add: t_def)
    have "x * x + y * y = (x * x) * (1 + t\<^sup>2)" by (simp add: y power2_eq_square algebra_simps)
    then have d: "sqrt (x * x + y * y) = - x * sqrt (1 + t\<^sup>2)"
      using left by (simp add: real_sqrt_mult)
    have pos: "0 < sqrt (1 + t\<^sup>2)" by (simp add: add_pos_nonneg)
    have th: "atan2 y x = arctan t + pi \<or> atan2 y x = arctan t - pi"
      using left by (simp add: atan2_def t_def)
    then have "cos (atan2 y x) = - cos (arctan t) \<and> sin (atan2 y x) = - sin (arctan t)"
      by auto
    then show ?thesis unfolding d using pos by (simp add: cos_arctan sin_arctan y)
  next
    case up
    then show ?thesis by (simp add: atan2_def)
  next
    case down
    then show ?thesis by (simp add: atan2_def)
  qed
qed

lemma findNodeByCoordinates_in_bounds:
  assumes inside: "sqrt (dx * dx + dy * dy) \<le> min width height / 2"
    and chart: "0 < min width height"
  shows "let angle = (if atan2 dy dx < 0 then atan2 dy dx + 2 * pi else atan2 dy dx);
             radiusRatio = sqrt (dx * dx + dy * dy) / (min width height / 2)
         in 0 \<le> angle \<and> angle \<le> 2 * pi \<and> 0 \<le> radiusRatio \<and> radiusRatio \<le> 1
            \<and> findNodeByCoordinates (width / 2 + dx) (height / 2 + dy) nodes width height
                 = findNodeByPolar angle radiusRatio nodes"
proof -
  define angle where "angle = (if atan2 dy dx < 0 then atan2 dy dx + 2 * pi else atan2 dy dx)"
  define radiusRatio where "radiusRatio = sqrt (dx * dx + dy * dy) / (min width height / 2)"
  have range: "0 \<le> angle \<and> angle \<le> 2 * pi"
    using atan2_bounds [of dy dx] pi_gt_zero by (auto simp add: angle_def)
  have ratio: "0 \<le> radiusRatio \<and> radiusRatio \<le> 1"
    using inside chart by (simp add: radiusRatio_def)
  have "\<not> min width height / 2 < sqrt (dx * dx + dy * dy)" using inside by linarith
  moreover have "min width height / 2 \<noteq> 0" using chart by linarith
  ultimately have "findNodeByCoordinates (width / 2 + dx) (height / 2 + dy) nodes width height
      = findNodeByPolar angle radiusRatio nodes"
    by (simp add: findNodeByCoordinates_def Let_def angle_def radiusRatio_def)
  with range ratio show ?thesis
    unfolding Let_def angle_def [symmetric] radiusRatio_def [symmetric] by blast
qed

section \<open>The claims\<close>

subsection \<open>C1: angle conservation\<close>

text \<open>
  Claim C1: the \<open>angleRange\<close> values of the children of a node, gap nodes included, add
  up to the node's \<open>angleRange\<close> to within \<open>1e-6\<close>.  Evaluated on the code: under the
  default configuration a root with two children is \<open>119\<pi>/60\<close> wide and ends at
  \<open>119\<pi>/60\<close>; its children add up to \<open>117\<pi>/60\<close>, and with the gap between them the
  second one ends at \<open>59\<pi>/30\<close>, one gap before the end of the root.  After
  \<open>insertGaps\<close>, a child \<open>59\<pi>/60\<close> wide has children and one gap node that add up to
  \<open>29\<pi>/30\<close>, one gap less.  Both loops reserve \<open>gapRadians * childrenCount\<close> and place
  \<open>childrenCount - 1\<close> gaps.
\<close>

theorem children_angles_fall_short_of_parent:
  "angleRange (hd (layoutOf defaultOptions oneThree)) = Some (119 * pi / 60)
   \<and> add_opt (startAngle (hd (layoutOf defaultOptions oneThree)))
         (angleRange (hd (layoutOf defaultOptions oneThree))) = Some (119 * pi / 60)
   \<and> sumAngleRange (children (hd (layoutOf defaultOptions oneThree))) = Some (117 * pi / 60)
   \<and> add_opt (startAngle (last (children (hd (layoutOf defaultOptions oneThree)))))
         (angleRange (last (children (hd (layoutOf defaultOptions oneThree))))) = Some (59 * pi / 30)
   \<and> 1 / 1000000 < \<bar>119 * pi / 60 - 117 * pi / 60\<bar>
   \<and> 1 / 1000000 < \<bar>119 * pi / 60 - 59 * pi / 30\<bar>
   \<and> angleRange (hd (children (hd (insertGaps defaultGapOptions twoLevels)))) = Some (59 * pi / 60)
   \<and> sumAngleRange (children (hd (children (hd (insertGaps defaultGapOptions twoLevels)))))
       = Some (29 * pi / 30)
   \<and> 1 / 1000000 < \<bar>59 * pi / 60 - 29 * pi / 30\<bar>"
proof -
  have a: "angleRange (hd (layoutOf defaultOptions oneThree)) = Some (119 * pi / 60)"
    unfolding layout_oneThree_default by simp
  have a': "add_opt (startAngle (hd (layoutOf defaultOptions oneThree)))
         (angleRange (hd (layoutOf defaultOptions oneThree))) = Some (119 * pi / 60)"
    unfolding layout_oneThree_default by simp
  have b: "sumAngleRange (children (hd (layoutOf defaultOptions oneThree))) = Some (117 * pi / 60)"
    unfolding layout_oneThree_default by (simp add: sumAngleRange_def)
  have b': "add_opt (startAngle (last (children (hd (layoutOf defaultOptions oneThree)))))
         (angleRange (last (children (hd (layoutOf defaultOptions oneThree))))) = Some (59 * pi / 30)"
    unfolding layout_oneThree_default by simp
  have c: "1 / 1000000 < \<bar>119 * pi / 60 - 117 * pi / 60\<bar>" using pi_ge_two by simp
  have c': "1 / 1000000 < \<bar>119 * pi / 60 - 59 * pi / 30\<bar>" using pi_ge_two by simp
  have d: "angleRange (hd (children (hd (insertGaps defaultGapOptions twoLevels)))) = Some (59 * pi / 60)"
    by (simp add: gap_eval twoLevels_def rawNode_def)
  have e: "sumAngleRange (children (hd (children (hd (insertGaps defaultGapOptions twoLevels)))))
       = Some (29 * pi / 30)"
    by (simp add: gap_eval twoLevels_def rawNode_def sumAngleRange_def)
  have f: "1 / 1000000 < \<bar>59 * pi / 60 - 29 * pi / 30\<bar>" using pi_ge_two by simp
  from a a' b b' c c' d e f show ?thesis by blast
qed

text \<open>
  The second half of the evaluation of claim C1 runs \<open>insertGaps\<close> with gaps enabled and
  a positive gap angle; with them, the sum over the children of \<open>A\<close> differs from the
  \<open>angleRange\<close> of \<open>A\<close>.
\<close>

theorem children_angles_fall_short_of_parent_witness:
  "gm_enableGaps defaultGapOptions \<and> 0 < gm_gapAngle defaultGapOptions
   \<and> sumAngleRange (children (hd (children (hd (insertGaps defaultGapOptions twoLevels)))))
       \<noteq> angleRange (hd (children (hd (insertGaps defaultGapOptions twoLevels))))
   \<and> sumAngleRange (children (hd (layoutOf defaultOptions oneThree)))
       \<noteq> angleRange (hd (layoutOf defaultOptions oneThree))"
proof -
  have on: "gm_enableGaps defaultGapOptions" "0 < gm_gapAngle defaultGapOptions"
    by (simp_all add: defaultGapOptions_def)
  note T = children_angles_fall_short_of_parent
  have "(117 * pi / 60 :: real) \<noteq> 119 * pi / 60" and "(29 * pi / 30 :: real) \<noteq> 59 * pi / 60"
    by simp_all
  with T on show ?thesis by simp
qed

subsection \<open>C2: the sibling partition\<close>

text \<open>
  Claim C2: a sibling group of \<open>n\<close> nodes reserves \<open>g * (n - 1)\<close> of gap, and in the
  scenario of a root with children of weight 1 and 3 and a gap of 10 degrees the
  children get 87.5 and 262.5 degrees.  Evaluated on the code: the children get
  \<open>11\<pi>/24\<close> (82.5 degrees) and \<open>11\<pi>/8\<close> (247.5 degrees), the second starting one gap
  after the first; as two roots they get 85 and 255 degrees.  The loop reserves
  \<open>g * n\<close>.
\<close>

theorem one_gap_too_many_is_reserved:
  "map angleRange (children (hd (layoutOf tenDegreeOptions oneThree)))
     = [Some (11 * pi / 24), Some (11 * pi / 8)]
   \<and> map startAngle (children (hd (layoutOf tenDegreeOptions oneThree)))
     = [Some 0, Some (37 * pi / 72)]
   \<and> 11 * pi / 24 \<noteq> (2 * pi - pi / 18) * 1 / 4
   \<and> 11 * pi / 8 \<noteq> (2 * pi - pi / 18) * 3 / 4
   \<and> map angleRange (layoutOf tenDegreeOptions [rawNode ''A'' 1 [], rawNode ''B'' 3 []])
     = [Some (17 * pi / 36), Some (17 * pi / 12)]
   \<and> 17 * pi / 36 \<noteq> (2 * pi - pi / 18) * 1 / 4"
proof -
  have a: "map angleRange (children (hd (layoutOf tenDegreeOptions oneThree)))
     = [Some (11 * pi / 24), Some (11 * pi / 8)]"
    unfolding layout_oneThree_ten by simp
  have b: "map startAngle (children (hd (layoutOf tenDegreeOptions oneThree)))
     = [Some 0, Some (37 * pi / 72)]"
    unfolding layout_oneThree_ten by simp
  have c: "11 * pi / 24 \<noteq> (2 * pi - pi / 18) * 1 / 4" by simp
  have d: "11 * pi / 8 \<noteq> (2 * pi - pi / 18) * 3 / 4" by simp
  have e: "map angleRange (layoutOf tenDegreeOptions [rawNode ''A'' 1 [], rawNode ''B'' 3 []])
     = [Some (17 * pi / 36), Some (17 * pi / 12)]"
    by (simp add: layout_eval tenDegreeOptions_def)
  have f: "17 * pi / 36 \<noteq> (2 * pi - pi / 18) * 1 / 4" by simp
  from a b c d e f show ?thesis by blast
qed

subsection \<open>C3: what hit testing returns\<close>

text \<open>
  Claim C3, as stated: hit testing returns \<open>null\<close> if and only if the point is out of
  bounds (\<open>radiusRatio > 1\<close>), never returns a gap node, and resolves a point on a gap
  to the enclosing real sector.  A click on the centre of the chart is in bounds
  (\<open>radiusRatio = 0\<close>) and returns \<open>null\<close>, because no root ring starts below
  \<open>innerRadius = 0.15\<close>; so does a point at 359 degrees and half the radius, in the
  angle the single root (0 to 357 degrees) leaves free.
\<close>

theorem in_bounds_click_returns_null:
  "findNodeByCoordinates 50 50 (layoutOf defaultOptions [rawNode ''r'' 1 []]) 100 100 = None
   \<and> sqrt ((50 - 100 / 2) * (50 - 100 / 2) + (50 - 100 / 2) * (50 - 100 / 2)) / (min 100 100 / 2) \<le> (1::real)
   \<and> findNodeByPolar (359 * pi / 180) (1 / 2) (layoutOf defaultOptions [rawNode ''r'' 1 []]) = None
   \<and> (1 / 2 :: real) \<le> 1"
proof -
  have centre: "findNodeByCoordinates 50 50 (layoutOf defaultOptions [rawNode ''r'' 1 []]) 100 100 = None"
    unfolding layout_single
    by (simp add: findNodeByCoordinates_def Let_def atan2_def radiusInRange_def angleInRange_def)
  have inside: "sqrt ((50 - 100 / 2) * (50 - 100 / 2) + (50 - 100 / 2) * (50 - 100 / 2)) / (min 100 100 / 2)
      \<le> (1::real)"
    by simp
  have free: "findNodeByPolar (359 * pi / 180) (1 / 2) (layoutOf defaultOptions [rawNode ''r'' 1 []]) = None"
    unfolding layout_single by (simp add: radiusInRange_def angleInRange_def)
  from centre inside free show ?thesis by simp
qed

text \<open>
  Claim C3, amended: hit testing returns \<open>null\<close> for every point farther from the
  centre than the chart radius.  For a point in bounds of a chart of positive size,
  \<open>findNodeByCoordinates\<close> is \<open>findNodeByPolar\<close> at the polar coordinates of the point:
  an angle from 0 to \<open>2\<pi>\<close> and a radius ratio from 0 to 1.  \<open>findNodeByPolar\<close> returns
  \<open>null\<close> exactly when no node of the list it is given contains the point in its
  angular interval and ring, which happens in bounds too (the inner hole, the angle
  left free between and after the roots).  Otherwise it takes the first node of the
  list that contains the point, whatever follows it in the list, and answers with the
  result of the same search among that node's children, or with the node itself when
  that search finds nothing.  So a returned node contains the point, none of its
  children does, and it carries ring radii; a point between two children of a node
  that the search reaches resolves to that node.  No node is tested for \<open>isGap\<close>: a
  gap node as \<open>createGapNode\<close> makes it has no ring radii and is never returned for
  that reason.
\<close>

theorem hit_test_result:
  "(min width height / 2
      < sqrt ((x - width / 2) * (x - width / 2) + (y - height / 2) * (y - height / 2))
     \<longrightarrow> findNodeByCoordinates x y nodes width height = None)
   \<and> (sqrt (dx * dx + dy * dy) \<le> min width height / 2 \<and> 0 < min width height
       \<longrightarrow> (let angle = (if atan2 dy dx < 0 then atan2 dy dx + 2 * pi else atan2 dy dx);
                radiusRatio = sqrt (dx * dx + dy * dy) / (min width height / 2)
            in 0 \<le> angle \<and> angle \<le> 2 * pi \<and> 0 \<le> radiusRatio \<and> radiusRatio \<le> 1
               \<and> findNodeByCoordinates (width / 2 + dx) (height / 2 + dy) nodes width height
                    = findNodeByPolar angle radiusRatio nodes))
   \<and> (findNodeByPolar angle r nodes = None
        \<longleftrightarrow> (\<forall>n \<in> set nodes. \<not> (angleInRange angle n \<and> radiusInRange r n)))
   \<and> (\<forall>m. findNodeByPolar angle r nodes = Some m
        \<longrightarrow> angleInRange angle m \<and> radiusInRange r m
            \<and> innerRadius m \<noteq> None \<and> outerRadius m \<noteq> None
            \<and> (\<forall>c \<in> set (children m). \<not> (angleInRange angle c \<and> radiusInRange r c))
            \<and> (\<forall>gapStart gapRange parentNode gapIndex.
                  m \<noteq> createGapNode gapStart gapRange parentNode gapIndex))
   \<and> (\<forall>before p after.
         (\<forall>q \<in> set before. \<not> (angleInRange angle q \<and> radiusInRange r q))
         \<and> angleInRange angle p \<and> radiusInRange r p
        \<longrightarrow> findNodeByPolar angle r (before @ p # after)
              = (case findNodeByPolar angle r (children p) of
                   Some childResult \<Rightarrow> Some childResult
                 | None \<Rightarrow> Some p))"
proof -
  have out: "min width height / 2
      < sqrt ((x - width / 2) * (x - width / 2) + (y - height / 2) * (y - height / 2))
     \<longrightarrow> findNodeByCoordinates x y nodes width height = None"
    by (simp add: findNodeByCoordinates_def Let_def)
  have inb: "sqrt (dx * dx + dy * dy) \<le> min width height / 2 \<and> 0 < min width height
       \<longrightarrow> (let angle = (if atan2 dy dx < 0 then atan2 dy dx + 2 * pi else atan2 dy dx);
                radiusRatio = sqrt (dx * dx + dy * dy) / (min width height / 2)
            in 0 \<le> angle \<and> angle \<le> 2 * pi \<and> 0 \<le> radiusRatio \<and> radiusRatio \<le> 1
               \<and> findNodeByCoordinates (width / 2 + dx) (height / 2 + dy) nodes width height
                    = findNodeByPolar angle radiusRatio nodes)"
    using findNodeByCoordinates_in_bounds by blast
  have hit: "\<forall>m. findNodeByPolar angle r nodes = Some m
        \<longrightarrow> angleInRange angle m \<and> radiusInRange r m
            \<and> innerRadius m \<noteq> None \<and> outerRadius m \<noteq> None
            \<and> (\<forall>c \<in> set (children m). \<not> (angleInRange angle c \<and> radiusInRange r c))
            \<and> (\<forall>gapStart gapRange parentNode gapIndex.
                  m \<noteq> createGapNode gapStart gapRange parentNode gapIndex)"
  proof (intro allI impI)
    fix m assume m: "findNodeByPolar angle r nodes = Some m"
    from findNodeByPolar_contains [OF m]
    have c: "angleInRange angle m \<and> radiusInRange r m" .
    with radiusInRange_has_ring have ring: "innerRadius m \<noteq> None \<and> outerRadius m \<noteq> None" by blast
    then have "\<forall>gapStart gapRange parentNode gapIndex.
                  m \<noteq> createGapNode gapStart gapRange parentNode gapIndex"
      using createGapNode_no_ring by metis
    with c ring findNodeByPolar_deepest [OF m]
    show "angleInRange angle m \<and> radiusInRange r m
            \<and> innerRadius m \<noteq> None \<and> outerRadius m \<noteq> None
            \<and> (\<forall>c \<in> set (children m). \<not> (angleInRange angle c \<and> radiusInRange r c))
            \<and> (\<forall>gapStart gapRange parentNode gapIndex.
                  m \<noteq> createGapNode gapStart gapRange parentNode gapIndex)"
      by blast
  qed
  have first: "\<forall>before p after.
         (\<forall>q \<in> set before. \<not> (angleInRange angle q \<and> radiusInRange r q))
         \<and> angleInRange angle p \<and> radiusInRange r p
        \<longrightarrow> findNodeByPolar angle r (before @ p # after)
              = (case findNodeByPolar angle r (children p) of
                   Some childResult \<Rightarrow> Some childResult
                 | None \<Rightarrow> Some p)"
    using findNodeByPolar_first_containing by blast
  from out inb findNodeByPolar_None_iff [of angle r nodes] hit first show ?thesis by blast
qed

theorem hit_test_result_witness:
  "min 100 100 / 2 < sqrt ((200 - 100 / 2) * (200 - 100 / 2) + (50 - 100 / 2) * (50 - 100 / 2))
   \<and> findNodeByCoordinates 200 50 (layoutOf defaultOptions oneThree) 100 100 = None
   \<and> sqrt (12 * 12 + 0 * 0) \<le> min 100 100 / 2
   \<and> findNodeByCoordinates (100 / 2 + 12) (100 / 2 + 0) (layoutOf defaultOptions oneThree) 100 100
        = Some (children (hd (layoutOf defaultOptions oneThree)) ! 0)
   \<and> findNodeByPolar 0 (6 / 25) (layoutOf defaultOptions oneThree)
        = Some (children (hd (layoutOf defaultOptions oneThree)) ! 0)
   \<and> findNodeByPolar 3 (6 / 25) (layoutOf defaultOptions oneThree)
        = Some (children (hd (layoutOf defaultOptions oneThree)) ! 1)
   \<and> findNodeByPolar (pi / 2) (6 / 25) (layoutOf defaultOptions oneThree)
        = Some (hd (layoutOf defaultOptions oneThree))
   \<and> findNodeByPolar (pi / 2) (6 / 25) (children (hd (layoutOf defaultOptions oneThree))) = None
   \<and> angleInRange 3 (children (hd (layoutOf defaultOptions oneThree)) ! 1)
   \<and> radiusInRange (6 / 25) (children (hd (layoutOf defaultOptions oneThree)) ! 1)
   \<and> innerRadius (children (hd (layoutOf defaultOptions oneThree)) ! 1) \<noteq> None"
proof -
  let ?L = "layoutOf defaultOptions oneThree"
  let ?A = "Node (Some ''A'') (Some 1) (Some 0) (Some (39 * pi / 80)) (Some 1) (Some (12 / 55))
           (Some (63 / 220)) False []"
  let ?B = "Node (Some ''B'') (Some 3) (Some (121 * pi / 240)) (Some (117 * pi / 80)) (Some 1)
           (Some (12 / 55)) (Some (63 / 220)) False []"
  let ?root = "Node (Some ''root'') (Some 1) (Some 0) (Some (119 * pi / 60)) (Some 0) (Some (3 / 20))
        (Some (9 / 10)) False [?A, ?B]"
  have L: "?L = [] @ ?root # []" by (simp add: layout_oneThree_default)
  have kidsA: "children ?root = [] @ ?A # [?B]" by simp
  have kidsB: "children ?root = [?A] @ ?B # []" by simp
  have names: "hd ?L = ?root" "children (hd ?L) ! 0 = ?A" "children (hd ?L) ! 1 = ?B"
    "children (hd ?L) = children ?root"
    by (simp_all add: layout_oneThree_default)
  have p2: "(2::real) \<le> pi" by (rule pi_ge_two)
  have p4: "pi < 4" by (rule pi_less_4)
  have root0: "angleInRange 0 ?root" "radiusInRange (6 / 25) ?root"
    using p2 by (simp_all add: angleInRange_def radiusInRange_def)
  have root3: "angleInRange 3 ?root" using p2 by (simp add: angleInRange_def)
  have rootH: "angleInRange (pi / 2) ?root" using p2 by (simp add: angleInRange_def)
  have A0: "angleInRange 0 ?A" "radiusInRange (6 / 25) ?A"
    using p2 by (simp_all add: angleInRange_def radiusInRange_def)
  have A3: "\<not> angleInRange 3 ?A" using p4 by (simp add: angleInRange_def)
  have B3: "angleInRange 3 ?B" "radiusInRange (6 / 25) ?B"
    using p2 p4 by (simp_all add: angleInRange_def radiusInRange_def)
  have AH: "\<not> angleInRange (pi / 2) ?A" using p2 by (simp add: angleInRange_def)
  have BH: "\<not> angleInRange (pi / 2) ?B" using p2 by (simp add: angleInRange_def)
  have sq: "sqrt ((200 - 100 / 2) * (200 - 100 / 2) + (50 - 100 / 2) * (50 - 100 / 2)) = (150::real)"
    by simp
  then have far: "min 100 100 / 2
      < sqrt ((200 - 100 / 2) * (200 - 100 / 2) + (50 - 100 / 2) * (50 - 100 / 2))"
    by simp
  have near: "sqrt (12 * 12 + 0 * 0) \<le> min 100 100 / (2::real)" by simp
  note T0 = hit_test_result [of 100 100 200 50 ?L 12 0 0 "6 / 25"]
  note T3 = hit_test_result [of 100 100 200 50 ?L 12 0 3 "6 / 25"]
  note TH = hit_test_result [of 100 100 200 50 "children ?root" 12 0 "pi / 2" "6 / 25"]
  note first0 = T0 [THEN conjunct2, THEN conjunct2, THEN conjunct2, THEN conjunct2, rule_format]
  note first3 = T3 [THEN conjunct2, THEN conjunct2, THEN conjunct2, THEN conjunct2, rule_format]
  note firstH = TH [THEN conjunct2, THEN conjunct2, THEN conjunct2, THEN conjunct2, rule_format]
  from T0 far have none: "findNodeByCoordinates 200 50 ?L 100 100 = None" by blast
  have leafA: "findNodeByPolar 0 (6 / 25) (children ?A) = None" by simp
  have "findNodeByPolar 0 (6 / 25) ([] @ ?A # [?B]) = Some ?A"
    using first0 [of "[]" ?A "[?B]"] A0 leafA by simp
  then have inA: "findNodeByPolar 0 (6 / 25) (children ?root) = Some ?A" by simp
  have "findNodeByPolar 0 (6 / 25) ([] @ ?root # []) = Some ?A"
    using first0 [of "[]" ?root "[]"] root0 inA by simp
  then have hitA: "findNodeByPolar 0 (6 / 25) ?L = Some (children (hd ?L) ! 0)"
    by (simp add: L names)
  have "findNodeByPolar 3 (6 / 25) ([?A] @ ?B # []) = Some ?B"
    using first3 [of "[?A]" ?B "[]"] A3 B3 by simp
  then have inB: "findNodeByPolar 3 (6 / 25) (children ?root) = Some ?B" by simp
  have "findNodeByPolar 3 (6 / 25) ([] @ ?root # []) = Some ?B"
    using first3 [of "[]" ?root "[]"] root3 root0(2) inB by simp
  then have hitB: "findNodeByPolar 3 (6 / 25) ?L = Some (children (hd ?L) ! 1)"
    by (simp add: L names)
  from TH [THEN conjunct2, THEN conjunct2, THEN conjunct1] AH BH
  have between: "findNodeByPolar (pi / 2) (6 / 25) (children ?root) = None" by simp
  have "findNodeByPolar (pi / 2) (6 / 25) ([] @ ?root # []) = Some ?root"
    using firstH [of "[]" ?root "[]"] rootH root0(2) between by simp
  then have hitRoot: "findNodeByPolar (pi / 2) (6 / 25) ?L = Some (hd ?L)"
    by (simp add: L names)
  from T0 [THEN conjunct2, THEN conjunct1] near
  have "findNodeByCoordinates (100 / 2 + 12) (100 / 2 + 0) ?L 100 100
          = findNodeByPolar 0 (sqrt (12 * 12 + 0 * 0) / (min 100 100 / 2)) ?L"
    by (simp add: Let_def atan2_def)
  also have "sqrt (12 * 12 + 0 * 0) / (min 100 100 / 2) = (6::real) / 25" by simp
  finally have click: "findNodeByCoordinates (100 / 2 + 12) (100 / 2 + 0) ?L 100 100
        = Some (children (hd ?L) ! 0)"
    using hitA by simp
  from T3 [THEN conjunct2, THEN conjunct2, THEN conjunct2, THEN conjunct1, rule_format, OF hitB]
  have props: "angleInRange 3 (children (hd ?L) ! 1)" "radiusInRange (6 / 25) (children (hd ?L) ! 1)"
    "innerRadius (children (hd ?L) ! 1) \<noteq> None"
    by blast+
  from far none near click hitA hitB hitRoot between [folded names(4)] props
  show ?thesis by blast
qed

subsection \<open>C4: the round trip through gap insertion and removal\<close>

text \<open>
  Claim C4, as stated: \<open>removeGaps(insertGaps(x))\<close> reproduces the angle assignment of
  \<open>x\<close> to within a small tolerance.  For the layout of a root with children of weight
  1 and 3 (a quarter and three quarters of the circle), the round trip gives the
  first child half of the circle.
\<close>

theorem round_trip_loses_weighted_angles:
  "angleRange (hd (children (hd (layoutOf gaplessOptions oneThree)))) = Some (pi / 2)
   \<and> angleRange (hd (children (hd (removeGaps (insertGaps defaultGapOptions
                                                 (layoutOf gaplessOptions oneThree))))))
       = Some pi
   \<and> 1 / 1000000 < \<bar>pi - pi / 2\<bar>"
proof -
  have "1 / 1000000 < \<bar>pi - pi / 2\<bar>" using pi_ge_two by simp
  then show ?thesis
    unfolding layout_oneThree_gapless by (simp add: gap_eval)
qed

text \<open>
  Claim C4, amended: \<open>removeGaps(insertGaps(x))\<close> is \<open>removeGaps(x)\<close>, the even partition
  of every node's \<open>angleRange\<close> among its children that are not gaps; it reproduces
  \<open>x\<close> when \<open>x\<close> is such an even partition already.
\<close>

theorem removeGaps_insertGaps_is_even_partition:
  "removeGaps (insertGaps opts data) = removeGaps data
   \<and> list_all evenlyPartitioned (removeGaps (insertGaps opts data))
   \<and> (list_all evenlyPartitioned data \<longrightarrow> removeGaps (insertGaps opts data) = data)"
proof -
  have eq: "removeGaps (insertGaps opts data) = removeGaps data"
    by (rule removeGaps_after_insertGaps)
  have even: "list_all evenlyPartitioned (removeGaps data)"
    by (simp add: removeGaps_def list_all_iff evenlyPartitioned_removeGapsFromNode)
  have fixed: "list_all evenlyPartitioned data \<longrightarrow> removeGaps data = data"
    by (auto simp add: removeGaps_def list_all_iff removeGapsFromNode_fixed map_idI)
  from eq even fixed show ?thesis by simp
qed

theorem removeGaps_insertGaps_is_even_partition_witness:
  "list_all evenlyPartitioned (layoutOf gaplessOptions twoEqual)
   \<and> removeGaps (insertGaps defaultGapOptions (layoutOf gaplessOptions twoEqual))
       = layoutOf gaplessOptions twoEqual"
proof -
  have ev: "list_all evenlyPartitioned (layoutOf gaplessOptions twoEqual)"
    unfolding layout_twoEqual_gapless by (simp add: div_opt_def mul_opt_def)
  from removeGaps_insertGaps_is_even_partition [of defaultGapOptions "layoutOf gaplessOptions twoEqual"] ev
  show ?thesis by blast
qed

subsection \<open>C5: radius nesting\<close>




subsection \<open>C6: radial bands\<close>

text \<open>
  Claim C6, as stated: the band of a node at depth \<open>d\<close> is band \<open>d\<close> of the
  \<open>maxDepth + 1\<close> equal bands of the root radius range (the last band beyond
  \<open>maxDepth\<close>), and a root occupies the innermost band only.  The code places a root
  on the whole configured range \<open>[0.15, 0.9]\<close>.
\<close>

theorem root_ring_is_not_innermost_band:
  "\<not> (\<forall>n \<in> set (layoutOf defaultOptions [rawNode ''r'' 1 []]).
         \<exists>k. depth n = Some k
           \<and> (innerRadius n, outerRadius n)
              = (Some (fst (specRingFor k (opt_innerRadius defaultOptions)
                              (opt_outerRadius defaultOptions) (opt_maxDepth defaultOptions))),
                 Some (snd (specRingFor k (opt_innerRadius defaultOptions)
                              (opt_outerRadius defaultOptions) (opt_maxDepth defaultOptions)))))"
  unfolding layout_single by (simp add: specRingFor_def defaultOptions_def Let_def)

text \<open>
  Claim C6, amended: every root is at depth 0 and occupies the whole configured range
  \<open>[innerRadius, outerRadius]\<close>; a child of a parent placed at depth \<open>d\<close> on the ring
  \<open>[pin, pout]\<close> is at depth \<open>d + 1\<close> on the ring that starts at
  \<open>pin + step * (d + 1)\<close> and is \<open>step\<close> wide, where
  \<open>step = (pout - pin) / (maxDepth + 1)\<close> is taken from the parent's ring, not from
  the root range; no depth is clamped.
\<close>

theorem ring_is_taken_from_parent:
  "(\<forall>r \<in> set (layoutOf opts nodes).
      depth r = Some 0 \<and> innerRadius r = Some (opt_innerRadius opts)
      \<and> outerRadius r = Some (opt_outerRadius opts))
   \<and> (\<forall>(p, c) \<in> set (forestPairs (layoutOf opts nodes)). ringFromParent opts p c)"
proof -
  have roots: "\<forall>r \<in> set (layoutOf opts nodes).
      depth r = Some 0 \<and> innerRadius r = Some (opt_innerRadius opts)
      \<and> outerRadius r = Some (opt_outerRadius opts)"
  proof
    fix r assume "r \<in> set (layoutOf opts nodes)"
    from root_of_layout [OF this] obtain n st where
      "r = createLayoutNode opts n (rootLayout opts nodes n st)" by blast
    then show "depth r = Some 0 \<and> innerRadius r = Some (opt_innerRadius opts)
        \<and> outerRadius r = Some (opt_outerRadius opts)"
      by (simp add: createLayoutNode_fields rootLayout_def)
  qed
  have pairs: "\<forall>(p, c) \<in> set (forestPairs (layoutOf opts nodes)). ringFromParent opts p c"
  proof
    fix x assume x: "x \<in> set (forestPairs (layoutOf opts nodes))"
    obtain p c where pc: "x = (p, c)" by (cases x)
    from forest_pair_cases [OF x [unfolded pc]] obtain n st where
      fam: "(p, c) \<in> set (familyPairs (createLayoutNode opts n (rootLayout opts nodes n st)))"
      by blast
    from placed_pairs [where I = "\<lambda>lay. True", OF TrueI TrueI fam]
    obtain pn play cn st' where
      p: "p = createLayoutNode opts pn play"
      and c: "c = createLayoutNode opts cn (childLayout opts pn play cn st')"
      by blast
    have "ringFromParent opts p c"
      unfolding ringFromParent_def p c
      by (simp add: createLayoutNode_fields childLayout_fields)
    then show "case x of (p, c) \<Rightarrow> ringFromParent opts p c" by (simp add: pc)
  qed
  from roots pairs show ?thesis by blast
qed

theorem ring_is_taken_from_parent_witness:
  "depth (hd (layoutOf shallowOptions chain3)) = Some 0
   \<and> innerRadius (hd (layoutOf shallowOptions chain3)) = Some (opt_innerRadius shallowOptions)
   \<and> outerRadius (hd (layoutOf shallowOptions chain3)) = Some (opt_outerRadius shallowOptions)
   \<and> ringFromParent shallowOptions (hd (layoutOf shallowOptions chain3))
        (hd (children (hd (layoutOf shallowOptions chain3))))"
proof -
  have r: "hd (layoutOf shallowOptions chain3) \<in> set (layoutOf shallowOptions chain3)"
    by (simp add: layout_chain3)
  have pc: "(hd (layoutOf shallowOptions chain3), hd (children (hd (layoutOf shallowOptions chain3))))
        \<in> set (forestPairs (layoutOf shallowOptions chain3))"
    by (simp add: layout_chain3 forestPairs_def)
  from ring_is_taken_from_parent [of shallowOptions chain3] r pc show ?thesis by blast
qed

subsection \<open>C7: no minimum-angle floor\<close>

text \<open>
  Claim C7, as stated: no real node of the computed layout ever receives
  \<open>angleRange \<le> 0\<close>, because a floor angle is handed out when the available angle is
  not positive.  The layout has no floor.  Under the default configuration a node
  beside a sibling 1000 times heavier is about 0.42 degrees wide; the one gap of 3
  degrees between its two children is wider than the node itself, and both children
  get a negative \<open>angleRange\<close>.
\<close>

theorem gap_wider_than_parent_gives_negative_angleRange:
  "\<exists>p c s a. (p, c) \<in> set (forestPairs (layoutOf defaultOptions skewedPair))
      \<and> \<not> isGap c \<and> length (children p) = 2
      \<and> angleRange p = Some s \<and> s < (opt_gapAngle defaultOptions * pi) / 180 * (2 - 1)
      \<and> angleRange c = Some a \<and> a < 0"
proof -
  let ?x = "Node (Some ''x'') (Some 1) (Some 0) (Some (- (931 * pi / 60072))) (Some 2)
              (Some (279 / 1210)) (Some (573 / 2420)) False []"
  let ?y = "Node (Some ''y'') (Some 1) (Some (117 * pi / 100120)) (Some (- (931 * pi / 60072)))
              (Some 2) (Some (279 / 1210)) (Some (573 / 2420)) False []"
  let ?small = "Node (Some ''small'') (Some 1) (Some 0) (Some (117 * pi / 50060)) (Some 1)
           (Some (12 / 55)) (Some (63 / 220)) False [?x, ?y]"
  have "(?small, ?x) \<in> set (forestPairs (layoutOf defaultOptions skewedPair))"
    by (simp add: layout_skewedPair forestPairs_def)
  moreover have "\<not> isGap ?x" "length (children ?small) = 2" by simp_all
  moreover have "angleRange ?small = Some (117 * pi / 50060)" by simp
  moreover have "117 * pi / 50060 < (opt_gapAngle defaultOptions * pi) / 180 * (2 - 1)"
    by (simp add: defaultOptions_def)
  moreover have "angleRange ?x = Some (- (931 * pi / 60072))" by simp
  moreover have "- (931 * pi / 60072) < 0" by simp
  ultimately show ?thesis by blast
qed

text \<open>
  Claim C7, amended: the layout has no floor.  The members of a sibling group get
  \<open>angleRange\<close> values of one sign, all positive, all zero or all negative, whatever
  their weights (a value of 0 counts as 1 and never makes a range negative by
  itself).  When the angle of the group (\<open>2\<pi>\<close> for the roots, the parent's \<open>angleRange\<close>
  otherwise) does not exceed the gaps between its members, \<open>gapRadians * (n - 1)\<close>,
  every member gets an \<open>angleRange \<le> 0\<close>; when the configured gap angle is not
  positive, every node gets a positive \<open>angleRange\<close>.  The separate pass
  \<open>optimizeLayout\<close>, which \<open>calculateLayout\<close> does not call, returns the list it is given
  with every \<open>angleRange\<close> below its \<open>minAngle\<close> argument (default 0.05) replaced by
  \<open>minAngle\<close> and nothing else changed.
\<close>

theorem angleRange_is_not_floored:
  "(\<forall>r \<in> set (layoutOf opts nodes). \<exists>a. angleRange r = Some a
       \<and> (0 \<le> opt_gapAngle opts
            \<and> 2 * pi \<le> (opt_gapAngle opts * pi) / 180 * (real (length nodes) - 1) \<longrightarrow> a \<le> 0)
       \<and> (opt_gapAngle opts \<le> 0 \<longrightarrow> 0 < a)
       \<and> (\<forall>r' \<in> set (layoutOf opts nodes). \<forall>a'. angleRange r' = Some a'
             \<longrightarrow> (0 < a \<longleftrightarrow> 0 < a') \<and> (a = 0 \<longleftrightarrow> a' = 0)))
   \<and> (\<forall>(p, c) \<in> set (forestPairs (layoutOf opts nodes)). \<exists>pr a.
       angleRange p = Some pr \<and> angleRange c = Some a
       \<and> (0 \<le> opt_gapAngle opts
            \<and> pr \<le> (opt_gapAngle opts * pi) / 180 * (real (length (children p)) - 1) \<longrightarrow> a \<le> 0)
       \<and> (opt_gapAngle opts \<le> 0 \<longrightarrow> 0 < a)
       \<and> (\<forall>c' \<in> set (children p). \<forall>a'. angleRange c' = Some a'
             \<longrightarrow> (0 < a \<longleftrightarrow> 0 < a') \<and> (a = 0 \<longleftrightarrow> a' = 0)))
   \<and> length (optimizeLayout sibs minAngle) = length sibs
   \<and> (\<forall>i < length sibs.
        optimizeLayout sibs minAngle ! i
          = (case sibs ! i of Node k v s a d ri ro g cs \<Rightarrow>
               Node k v s (map_option (\<lambda>r. max r minAngle) a) d ri ro g cs))"
proof -
  have roots: "\<forall>r \<in> set (layoutOf opts nodes). \<exists>a. angleRange r = Some a
       \<and> (0 \<le> opt_gapAngle opts
            \<and> 2 * pi \<le> (opt_gapAngle opts * pi) / 180 * (real (length nodes) - 1) \<longrightarrow> a \<le> 0)
       \<and> (opt_gapAngle opts \<le> 0 \<longrightarrow> 0 < a)
       \<and> (\<forall>r' \<in> set (layoutOf opts nodes). \<forall>a'. angleRange r' = Some a'
             \<longrightarrow> (0 < a \<longleftrightarrow> 0 < a') \<and> (a = 0 \<longleftrightarrow> a' = 0))"
    using root_angleRange by blast
  have pairs: "\<forall>(p, c) \<in> set (forestPairs (layoutOf opts nodes)). \<exists>pr a.
       angleRange p = Some pr \<and> angleRange c = Some a
       \<and> (0 \<le> opt_gapAngle opts
            \<and> pr \<le> (opt_gapAngle opts * pi) / 180 * (real (length (children p)) - 1) \<longrightarrow> a \<le> 0)
       \<and> (opt_gapAngle opts \<le> 0 \<longrightarrow> 0 < a)
       \<and> (\<forall>c' \<in> set (children p). \<forall>a'. angleRange c' = Some a'
             \<longrightarrow> (0 < a \<longleftrightarrow> 0 < a') \<and> (a = 0 \<longleftrightarrow> a' = 0))"
  proof
    fix x assume x: "x \<in> set (forestPairs (layoutOf opts nodes))"
    obtain p c where pc: "x = (p, c)" by (cases x)
    from pair_angleRange [OF x [unfolded pc]]
    show "case x of (p, c) \<Rightarrow> \<exists>pr a.
       angleRange p = Some pr \<and> angleRange c = Some a
       \<and> (0 \<le> opt_gapAngle opts
            \<and> pr \<le> (opt_gapAngle opts * pi) / 180 * (real (length (children p)) - 1) \<longrightarrow> a \<le> 0)
       \<and> (opt_gapAngle opts \<le> 0 \<longrightarrow> 0 < a)
       \<and> (\<forall>c' \<in> set (children p). \<forall>a'. angleRange c' = Some a'
             \<longrightarrow> (0 < a \<longleftrightarrow> 0 < a') \<and> (a = 0 \<longleftrightarrow> a' = 0))"
      by (simp add: pc)
  qed
  have len: "length (optimizeLayout sibs minAngle) = length sibs"
    by (rule length_optimizeLayout)
  have raised: "\<forall>i < length sibs.
        optimizeLayout sibs minAngle ! i
          = (case sibs ! i of Node k v s a d ri ro g cs \<Rightarrow>
               Node k v s (map_option (\<lambda>r. max r minAngle) a) d ri ro g cs)"
    using optimizeLayout_nth by blast
  from roots pairs len raised show ?thesis by blast
qed

theorem angleRange_is_not_floored_witness:
  "(hd (children (hd (layoutOf defaultOptions skewedPair))),
      hd (children (hd (children (hd (layoutOf defaultOptions skewedPair))))))
        \<in> set (forestPairs (layoutOf defaultOptions skewedPair))
   \<and> angleRange (hd (children (hd (layoutOf defaultOptions skewedPair)))) = Some (117 * pi / 50060)
   \<and> 0 \<le> opt_gapAngle defaultOptions
   \<and> 117 * pi / 50060 \<le> (opt_gapAngle defaultOptions * pi) / 180
        * (real (length (children (hd (children (hd (layoutOf defaultOptions skewedPair)))))) - 1)
   \<and> angleRange (hd (children (hd (children (hd (layoutOf defaultOptions skewedPair))))))
        = Some (- (931 * pi / 60072))
   \<and> - (931 * pi / 60072) \<le> 0
   \<and> opt_gapAngle gaplessOptions \<le> 0
   \<and> (hd (layoutOf gaplessOptions twoLevels), hd (children (hd (layoutOf gaplessOptions twoLevels))))
        \<in> set (forestPairs (layoutOf gaplessOptions twoLevels))
   \<and> angleRange (hd (children (hd (layoutOf gaplessOptions twoLevels)))) = Some (12 * pi / 11)
   \<and> 0 < 12 * pi / 11
   \<and> 0 < length (children (hd (layoutOf defaultOptions skewedPair)))
   \<and> angleRange (children (hd (layoutOf defaultOptions skewedPair)) ! 0) = Some (117 * pi / 50060)
   \<and> 117 * pi / 50060 < defaultMinAngle
   \<and> angleRange (optimizeLayout (children (hd (layoutOf defaultOptions skewedPair))) defaultMinAngle ! 0)
        = Some defaultMinAngle"
proof -
  let ?L = "layoutOf defaultOptions skewedPair"
  let ?small = "hd (children (hd ?L))"
  let ?x = "hd (children ?small)"
  let ?G = "layoutOf gaplessOptions twoLevels"
  let ?A = "hd (children (hd ?G))"
  have pair: "(?small, ?x) \<in> set (forestPairs ?L)"
    by (simp add: layout_skewedPair forestPairs_def)
  have rs: "angleRange ?small = Some (117 * pi / 50060)" by (simp add: layout_skewedPair)
  have rx: "angleRange ?x = Some (- (931 * pi / 60072))" by (simp add: layout_skewedPair)
  have g: "0 \<le> opt_gapAngle defaultOptions" by (simp add: defaultOptions_def)
  have two: "length (children ?small) = 2" by (simp add: layout_skewedPair)
  have narrow: "117 * pi / 50060 \<le> (opt_gapAngle defaultOptions * pi) / 180
        * (real (length (children ?small)) - 1)"
    unfolding two by (simp add: defaultOptions_def)
  note T = angleRange_is_not_floored [of defaultOptions skewedPair "children (hd ?L)" defaultMinAngle]
  from T [THEN conjunct2, THEN conjunct1, rule_format, OF pair] rs rx g narrow
  have neg: "- (931 * pi / 60072) \<le> 0" by auto
  have g0: "opt_gapAngle gaplessOptions \<le> 0" by (simp add: gaplessOptions_def)
  have pairG: "(hd ?G, ?A) \<in> set (forestPairs ?G)"
    by (simp add: layout_twoLevels_gapless forestPairs_def)
  have rA: "angleRange ?A = Some (12 * pi / 11)" by (simp add: layout_twoLevels_gapless)
  note T' = angleRange_is_not_floored [of gaplessOptions twoLevels "[]" 0]
  from T' [THEN conjunct2, THEN conjunct1, rule_format, OF pairG] rA g0
  have pos: "0 < 12 * pi / 11" by auto
  have some: "0 < length (children (hd ?L))" by (simp add: layout_skewedPair)
  have r0: "angleRange (children (hd ?L) ! 0) = Some (117 * pi / 50060)"
    by (simp add: layout_skewedPair)
  have "117 * pi < 117 * 4" using pi_less_4 by simp
  then have below: "117 * pi / 50060 < defaultMinAngle" by (simp add: defaultMinAngle_def)
  from T [THEN conjunct2, THEN conjunct2, THEN conjunct2, rule_format, OF some]
  have "angleRange (optimizeLayout (children (hd ?L)) defaultMinAngle ! 0)
          = map_option (\<lambda>r. max r defaultMinAngle) (angleRange (children (hd ?L) ! 0))"
    by (cases "children (hd ?L) ! 0") simp
  with r0 below have raised: "angleRange (optimizeLayout (children (hd ?L)) defaultMinAngle ! 0)
        = Some defaultMinAngle"
    by (simp add: max_def)
  from pair rs g narrow rx neg g0 pairG rA pos some r0 below raised show ?thesis by blast
qed

subsection \<open>C8: no depth truncation\<close>

text \<open>
  Claim C8, as stated: the layout of a forest deeper than \<open>maxDepth\<close> contains no node
  with \<open>depth > maxDepth\<close>.  With \<open>maxDepth = 1\<close> the layout of a chain of three nodes
  contains the third one, at depth 2.
\<close>

theorem layout_deeper_than_maxDepth:
  "\<not> (\<forall>(p, c) \<in> set (forestPairs (layoutOf shallowOptions chain3)).
         \<forall>k. depth c = Some k \<longrightarrow> k \<le> opt_maxDepth shallowOptions)"
  unfolding layout_chain3 by (simp add: forestPairs_def shallowOptions_def)

text \<open>
  Claim C8, amended: the layout recursion never truncates.  The layout has as many
  nodes and the same maximum depth as the input forest (counted by the source's own
  \<open>countNodes\<close> and \<open>calculateMaxDepth\<close>), and every placed node carries its level in
  the forest as \<open>depth\<close>; so a forest deeper than \<open>maxDepth\<close> yields nodes with
  \<open>depth > maxDepth\<close>.  The source has no diagnostic channel on this path.
\<close>

theorem layout_keeps_every_level:
  "countNodes (layoutOf opts nodes) = countNodes nodes
   \<and> calculateMaxDepth (layoutOf opts nodes) = calculateMaxDepth nodes
   \<and> list_all (depthLabelled 0) (layoutOf opts nodes)"
proof -
  have cnt: "countNodes (layoutOf opts nodes) = countNodes nodes"
    by (simp add: countNodes_def layoutOf_unfold fold_countNode_siblings countNode_placed)
  have dep: "calculateMaxDepth (layoutOf opts nodes) = calculateMaxDepth nodes"
    by (simp add: calculateMaxDepth_def layoutOf_unfold fold_calculateDepth_siblings
        calculateDepth_placed)
  have lab: "list_all (depthLabelled 0) (layoutOf opts nodes)"
    unfolding list_all_iff
  proof
    fix r assume "r \<in> set (layoutOf opts nodes)"
    from root_of_layout [OF this] obtain n st where
      r: "r = createLayoutNode opts n (rootLayout opts nodes n st)" by blast
    have "depthLabelled (l_depth (rootLayout opts nodes n st)) r"
      unfolding r by (rule depthLabelled_placed)
    then show "depthLabelled 0 r" by (simp add: rootLayout_def)
  qed
  from cnt dep lab show ?thesis by blast
qed

theorem layout_keeps_every_level_witness:
  "countNodes (layoutOf shallowOptions chain3) = 3
   \<and> calculateMaxDepth (layoutOf shallowOptions chain3) = 2
   \<and> opt_maxDepth shallowOptions = 1
   \<and> list_all (depthLabelled 0) (layoutOf shallowOptions chain3)"
  using layout_keeps_every_level [of shallowOptions chain3]
  by (simp add: countNodes_def calculateMaxDepth_def chain3_def rawNode_def shallowOptions_def)

subsection \<open>C9: gap insertion and its argument\<close>

text \<open>
  Claim C9, as stated: \<open>insertGaps\<close> returns a new tree and leaves its argument
  unchanged.  On a root with two children the call replaces the root's \<open>children\<close>
  array (two references before, three after) and writes \<open>startAngle\<close> of the first
  child.
\<close>

theorem insertGaps_changes_its_argument:
  "\<exists>st'. insertGapsS 2 defaultGapOptions [0] exampleStore = Some ([0], st')
      \<and> map_option o_children (heap exampleStore 0) = Some [1, 2]
      \<and> map_option o_children (heap st' 0) = Some [1, 3, 2]
      \<and> map_option o_startAngle (heap exampleStore 1) = Some None
      \<and> map_option o_startAngle (heap st' 1) = Some (Some 0)"
proof -
  have "map_option o_children (heap exampleStore 0) = Some [1, 2]"
    and "map_option o_children (heap exampleStoreAfter 0) = Some [1, 3, 2]"
    and "map_option o_startAngle (heap exampleStore 1) = Some None"
    and "map_option o_startAngle (heap exampleStoreAfter 1) = Some (Some 0)"
    by (simp_all add: exampleStore_def exampleStoreAfter_def)
  with example_run show ?thesis by blast
qed

text \<open>
  Claim C9, amended: \<open>insertGaps\<close> works in place.  On a store without cycles and
  without references to nothing (a ranked store), with fuel above the rank of the
  roots, the call returns, and the array it returns holds the very node objects it was
  given.  When the argument is a proper forest (no shared node), the forest read from
  the argument after the call is the forest with the gaps, as \<open>insertGaps\<close> on values
  computes it.  When the call runs on a single root with at least two and at least
  \<open>minChildrenForGap\<close> children, that root's \<open>children\<close> array afterwards holds the \<open>n\<close>
  children and \<open>n - 1\<close> gap nodes.  The call leaves the store untouched when gaps are
  disabled or the gap angle is not positive, and also when every root has fewer than
  \<open>minChildrenForGap\<close> children: such a node is returned unwritten.
\<close>

theorem insertGaps_works_in_place:
  "(rankedStore rank n0 st \<and> (\<forall>r \<in> set data. heap st r \<noteq> None \<and> rank r < fuel)
      \<longrightarrow> (\<exists>after. insertGapsS fuel opts data st = Some (data, after)))
   \<and> (readForest fuel st data = Some ts \<and> properForest fuel st data
      \<longrightarrow> (\<exists>after. insertGapsS fuel opts data st = Some (data, after)
                   \<and> readForest fuel after data = Some (insertGaps opts ts)))
   \<and> (insertGapsS fuel opts data st = Some (res, st') \<longrightarrow> res = data)
   \<and> (\<not> gm_enableGaps opts \<or> gm_gapAngle opts \<le> 0 \<longrightarrow> insertGapsS fuel opts data st = Some (data, st))
   \<and> (gm_enableGaps opts \<and> 0 < gm_gapAngle opts \<and> heap st rootRef = Some ob
        \<and> gm_minChildrenForGap opts \<le> length (o_children ob) \<and> 2 \<le> length (o_children ob)
        \<and> insertGapsS fuel opts [rootRef] st = Some (res1, st1)
       \<longrightarrow> (\<exists>ob'. heap st1 rootRef = Some ob'
                  \<and> length (o_children ob') = 2 * length (o_children ob) - 1))
   \<and> (0 < fuel
        \<and> (\<forall>r \<in> set data. \<exists>small. heap st r = Some small
               \<and> length (o_children small) < gm_minChildrenForGap opts)
       \<longrightarrow> insertGapsS fuel opts data st = Some (data, st))"
proof -
  have total: "rankedStore rank n0 st \<and> (\<forall>r \<in> set data. heap st r \<noteq> None \<and> rank r < fuel)
      \<longrightarrow> (\<exists>after. insertGapsS fuel opts data st = Some (data, after))"
    using insertGapsS_total by blast
  have refines: "readForest fuel st data = Some ts \<and> properForest fuel st data
      \<longrightarrow> (\<exists>after. insertGapsS fuel opts data st = Some (data, after)
                   \<and> readForest fuel after data = Some (insertGaps opts ts))"
    using insertGapsS_refines_insertGaps by blast
  have same: "insertGapsS fuel opts data st = Some (res, st') \<longrightarrow> res = data"
    by (auto simp add: insertGapsS_def Let_def dest: processRootsS_returns_argument split: if_splits)
  have off: "\<not> gm_enableGaps opts \<or> gm_gapAngle opts \<le> 0 \<longrightarrow> insertGapsS fuel opts data st = Some (data, st)"
    by (simp add: insertGapsS_def)
  have splice: "\<exists>ob'. heap st1 rootRef = Some ob' \<and> length (o_children ob') = 2 * length (o_children ob) - 1"
    if on: "gm_enableGaps opts" "0 < gm_gapAngle opts" and ob: "heap st rootRef = Some ob"
      and enough: "gm_minChildrenForGap opts \<le> length (o_children ob)" and two: "2 \<le> length (o_children ob)"
      and run: "insertGapsS fuel opts [rootRef] st = Some (res1, st1)"
  proof -
    from run on obtain r where
      "processNodeS fuel opts ((gm_gapAngle opts * pi) / 180) rootRef (2 * pi) 0 st = Some (r, st1)"
      by (auto simp add: insertGapsS_def Let_def split: option.splits prod.splits)
    moreover from two have "o_children ob \<noteq> []" by auto
    ultimately show ?thesis using processNodeS_splices_gaps ob enough by blast
  qed
  have few: "0 < fuel
        \<and> (\<forall>r \<in> set data. \<exists>small. heap st r = Some small
               \<and> length (o_children small) < gm_minChildrenForGap opts)
       \<longrightarrow> insertGapsS fuel opts data st = Some (data, st)"
    using processRootsS_below_min [of fuel data st opts]
    by (auto simp add: insertGapsS_def Let_def)
  from total refines same off splice few show ?thesis by blast
qed

theorem insertGaps_works_in_place_witness:
  "rankedStore exampleRank 3 exampleStore
   \<and> heap exampleStore 0 \<noteq> None \<and> exampleRank 0 < 2
   \<and> readForest 2 exampleStore [0] = Some twoEqual \<and> properForest 2 exampleStore [0]
   \<and> insertGapsS 2 defaultGapOptions [0] exampleStore = Some ([0], exampleStoreAfter)
   \<and> readForest 2 exampleStoreAfter [0] = Some (insertGaps defaultGapOptions twoEqual)
   \<and> \<not> gm_enableGaps disabledGapOptions
   \<and> insertGapsS 2 disabledGapOptions [0] exampleStore = Some ([0], exampleStore)
   \<and> gm_enableGaps defaultGapOptions \<and> 0 < gm_gapAngle defaultGapOptions
   \<and> (\<exists>ob ob'. heap exampleStore 0 = Some ob
          \<and> gm_minChildrenForGap defaultGapOptions \<le> length (o_children ob)
          \<and> 2 \<le> length (o_children ob)
          \<and> heap exampleStoreAfter 0 = Some ob'
          \<and> length (o_children ob') = 2 * length (o_children ob) - 1)
   \<and> (\<exists>small. heap exampleStore 1 = Some small
          \<and> length (o_children small) < gm_minChildrenForGap defaultGapOptions)
   \<and> insertGapsS 2 defaultGapOptions [1] exampleStore = Some ([1], exampleStore)"
proof -
  define ob where "ob = \<lparr>o_id = Some ''root'', o_value = Some 1, o_startAngle = None,
      o_angleRange = None, o_isGap = False, o_children = [1, 2]\<rparr>"
  have ranked: "rankedStore exampleRank 3 exampleStore" by (rule exampleStore_ranked)
  have there: "heap exampleStore 0 \<noteq> None" by (simp add: exampleStore_def)
  have low: "exampleRank 0 < 2" by (simp add: exampleRank_def)
  have tree: "readForest 2 exampleStore [0] = Some twoEqual"
    by (simp add: exampleStore_def twoEqual_def rawNode_def eval_nat_numeral)
  have proper: "properForest 2 exampleStore [0]"
    by (simp add: properForest_def exampleStore_def eval_nat_numeral)
  have off: "\<not> gm_enableGaps disabledGapOptions" by (simp add: disabledGapOptions_def)
  have on: "gm_enableGaps defaultGapOptions" "0 < gm_gapAngle defaultGapOptions"
    by (simp_all add: defaultGapOptions_def)
  have ob: "heap exampleStore 0 = Some ob" by (simp add: exampleStore_def ob_def)
  have enough: "gm_minChildrenForGap defaultGapOptions \<le> length (o_children ob)"
    and two: "2 \<le> length (o_children ob)"
    by (simp_all add: defaultGapOptions_def ob_def)
  note T1 = insertGaps_works_in_place [of exampleRank 3 exampleStore "[0]" 2 defaultGapOptions
      twoEqual "[0]" exampleStoreAfter 0 ob "[0]" exampleStoreAfter]
  note T2 = insertGaps_works_in_place [of exampleRank 3 exampleStore "[0]" 2 disabledGapOptions
      twoEqual "[0]" exampleStore 0 ob "[0]" exampleStore]
  from T1 ranked there low obtain after where
    "insertGapsS 2 defaultGapOptions [0] exampleStore = Some ([0], after)" by auto
  with example_run have run: "insertGapsS 2 defaultGapOptions [0] exampleStore = Some ([0], exampleStoreAfter)"
    by simp
  from T1 tree proper run
  have readback: "readForest 2 exampleStoreAfter [0] = Some (insertGaps defaultGapOptions twoEqual)"
    by auto
  from T2 off have idle: "insertGapsS 2 disabledGapOptions [0] exampleStore = Some ([0], exampleStore)"
    by blast
  from T1 on ob enough two run
  obtain ob' where "heap exampleStoreAfter 0 = Some ob'"
    "length (o_children ob') = 2 * length (o_children ob) - 1"
    by blast
  then have spliced: "\<exists>ob ob'. heap exampleStore 0 = Some ob
          \<and> gm_minChildrenForGap defaultGapOptions \<le> length (o_children ob)
          \<and> 2 \<le> length (o_children ob)
          \<and> heap exampleStoreAfter 0 = Some ob'
          \<and> length (o_children ob') = 2 * length (o_children ob) - 1"
    using ob enough two by blast
  have leaf: "\<exists>small. heap exampleStore 1 = Some small
          \<and> length (o_children small) < gm_minChildrenForGap defaultGapOptions"
    by (simp add: exampleStore_def defaultGapOptions_def)
  note T3 = insertGaps_works_in_place [of exampleRank 3 exampleStore "[1]" 2 defaultGapOptions
      twoEqual "[1]" exampleStore 0 ob "[1]" exampleStore]
  from T3 leaf have unwritten: "insertGapsS 2 defaultGapOptions [1] exampleStore = Some ([1], exampleStore)"
    by simp
  from ranked there low tree proper run readback off idle on spliced leaf unwritten
  show ?thesis by blast
qed

subsection \<open>C10: the weight model\<close>


end
